theory Spec2Isabelle
  imports Main "HOL-Library.Word"
begin

unbundle bit_operations_syntax

section \<open>Event tracing and counter telemetry of the UVM tools core (uvm\_tools.c)\<close>

subsection \<open>Constants declared in headers outside this file\<close>

text \<open>
  The enumerators of \<open>UvmEventType\<close> and \<open>UvmCounterName\<close>, the array bounds
  \<open>UvmEventNumTypesAll\<close> and \<open>UVM_TOTAL_COUNTERS\<close> and the identity
  \<open>NV_PROCESSOR_UUID_CPU_DEFAULT\<close> are declared in headers that uvm\_tools.c includes.
  Every definition below that uses one of them takes this record as a parameter, so each
  theorem holds for whatever values the headers give.
\<close>

type_synonym NvProcessorUuid = "8 word list"

record uvm_consts =
  UvmEventNumTypesAll :: nat
  UVM_TOTAL_COUNTERS :: nat
  UvmEventTypeCpuFault :: nat
  UvmEventTypeMigration :: nat
  UvmEventTypeGpuFault :: nat
  UvmEventTypeReadDuplicate :: nat
  UvmEventTypeTestHmmSplitInvalidate :: nat
  UvmCounterNameBytesXferHtD :: nat
  UvmCounterNameBytesXferDtH :: nat
  UvmCounterNameCpuPageFaultCount :: nat
  UvmCounterNameGpuPageFaultCount :: nat
  NV_PROCESSOR_UUID_CPU_DEFAULT :: NvProcessorUuid

text \<open>
  \<open>UVM_ASSERT\<close> is a macro of uvm\_common.h. A failed assertion is a branch of the model of
  its own: the function returns \<open>Inl Assert_failed\<close> and does nothing further. Reading
  through the address of an object that has been freed is \<open>Inl Invalid_pointer\<close>.
\<close>

datatype error = Assert_failed | Invalid_pointer

subsection \<open>Counter aggregator\<close>

text \<open>
  \<open>uvm_tools_counter_t\<close>: the counter half of an event tracker. \<open>counters\<close> is the
  accumulator array mapped from the subscriber, indexed by counter id.
\<close>

record uvm_tools_counter_t =
  subscribed_counters :: "64 word"
  counters :: "nat \<Rightarrow> 64 word"
  all_processors :: bool
  processor :: NvProcessorUuid

text \<open>
  A counter tracker is linked into one list per counter id it subscribes to, and all those
  lists reach the same accumulator array. The trackers therefore live in a store, from
  references to objects, and the lists \<open>va_space->tools.counters[id]\<close> hold references.
\<close>

type_synonym counter_store = "nat \<Rightarrow> uvm_tools_counter_t"

text \<open>
  Modelled from the spec: \<open>uvm_processor_uuid_eq\<close>, declared outside this file, tells
  whether two processor identities match exactly.
\<close>

definition uvm_processor_uuid_eq :: "NvProcessorUuid \<Rightarrow> NvProcessorUuid \<Rightarrow> bool" where
  "uvm_processor_uuid_eq a b = (a = b)"

definition counter_matches_processor :: "uvm_consts \<Rightarrow> nat \<Rightarrow> NvProcessorUuid \<Rightarrow> bool" where
  "counter_matches_processor k counter proc =
     (if counter = UvmCounterNameCpuPageFaultCount k
      then uvm_processor_uuid_eq proc (NV_PROCESSOR_UUID_CPU_DEFAULT k)
      else True)"

text \<open>\<open>atomic64_add(amount, counters->counters + counter)\<close>.\<close>

definition atomic64_add_counter :: "64 word \<Rightarrow> nat \<Rightarrow> uvm_tools_counter_t \<Rightarrow> uvm_tools_counter_t" where
  "atomic64_add_counter amount counter t =
     t\<lparr>counters := (counters t)(counter := counters t counter + amount)\<rparr>"

text \<open>The body of the loop over the subscribers of one counter id.\<close>

definition inc_counter_step ::
  "uvm_consts \<Rightarrow> nat \<Rightarrow> 64 word \<Rightarrow> NvProcessorUuid \<Rightarrow> nat \<Rightarrow> counter_store \<Rightarrow> counter_store" where
  "inc_counter_step k counter amount proc r st =
     (if (all_processors (st r) \<and> counter_matches_processor k counter proc)
         \<or> uvm_processor_uuid_eq (processor (st r)) proc
      then st(r := atomic64_add_counter amount counter (st r))
      else st)"

definition uvm_tools_inc_counter ::
  "uvm_consts \<Rightarrow> (nat \<Rightarrow> nat list) \<Rightarrow> nat \<Rightarrow> 64 word \<Rightarrow> NvProcessorUuid \<Rightarrow> counter_store
     \<Rightarrow> error + counter_store" where
  "uvm_tools_inc_counter k tools_counters counter amount proc st =
     (if \<not> counter < UVM_TOTAL_COUNTERS k then Inl Assert_failed
      else if amount > 0
      then Inr (fold (inc_counter_step k counter amount proc) (tools_counters counter) st)
      else Inr st)"

text \<open>Constants and a small store used to run the definitions on concrete inputs.\<close>

definition example_consts :: uvm_consts where
  "example_consts =
     \<lparr>UvmEventNumTypesAll = 64, UVM_TOTAL_COUNTERS = 10,
      UvmEventTypeCpuFault = 1, UvmEventTypeMigration = 2, UvmEventTypeGpuFault = 3,
      UvmEventTypeReadDuplicate = 6, UvmEventTypeTestHmmSplitInvalidate = 62,
      UvmCounterNameBytesXferHtD = 0, UvmCounterNameBytesXferDtH = 1,
      UvmCounterNameCpuPageFaultCount = 2, UvmCounterNameGpuPageFaultCount = 9,
      NV_PROCESSOR_UUID_CPU_DEFAULT = [0]\<rparr>"

definition example_counter_store :: counter_store where
  "example_counter_store =
     (\<lambda>r. \<lparr>subscribed_counters = 4, counters = (\<lambda>_. 0),
           all_processors = (r = 0), processor = [of_nat r]\<rparr>)"

subsection \<open>Ring queue\<close>

text \<open>
  \<open>UvmToolsEventControlData\<close>: the control block shared with the consumer, four 32-bit
  cursors and one 64-bit drop counter per event type.
\<close>

record UvmToolsEventControlData =
  get_ahead :: "32 word"
  get_behind :: "32 word"
  put_ahead :: "32 word"
  put_behind :: "32 word"
  dropped :: "nat \<Rightarrow> 64 word"

text \<open>
  \<open>UvmEventEntry\<close>: a fixed-size record whose first byte is the event type. The queue
  copies entries whole and reads nothing but the event type, so the rest of the record is
  a type parameter.
\<close>

record 'p UvmEventEntry =
  eventType :: "8 word"
  payload :: 'p

record uvm_tools_queue_snapshot_t =
  sn_get_ahead :: "32 word"
  sn_get_behind :: "32 word"
  sn_put_ahead :: "32 word"
  sn_put_behind :: "32 word"

text \<open>
  \<open>uvm_tools_queue_t\<close>. \<open>queue\<close> is the record array mapped from the consumer: a pointer,
  so the model is the memory from that address on, indexed by slot, and
  \<open>queue_buffer_count\<close> says how many slots belong to the buffer. \<open>wait_queue_flushes\<close>
  counts the calls of \<open>blockq_flush(queue->wait_queue)\<close>, the releases of the consumer's
  wait condition.
\<close>

record 'p uvm_tools_queue_t =
  subscribed_queues :: "64 word"
  queue :: "nat \<Rightarrow> 'p UvmEventEntry"
  queue_buffer_count :: "32 word"
  notification_threshold :: "32 word"
  control :: UvmToolsEventControlData
  wait_queue_flushes :: nat
  is_wakeup_get_valid :: bool
  wakeup_get :: "32 word"

definition queue_needs_wakeup :: "'p uvm_tools_queue_t \<Rightarrow> uvm_tools_queue_snapshot_t \<Rightarrow> bool" where
  "queue_needs_wakeup q sn =
     (let queue_mask = queue_buffer_count q - 1
      in ((queue_buffer_count q + sn_put_behind sn - sn_get_ahead sn) AND queue_mask)
           \<ge> notification_threshold q)"

text \<open>\<open>atomic64_inc(&ctrl->dropped + eventType)\<close>.\<close>

definition inc_dropped :: "'p UvmEventEntry \<Rightarrow> 'p uvm_tools_queue_t \<Rightarrow> 'p uvm_tools_queue_t" where
  "inc_dropped entry q =
     q\<lparr>control := (control q)\<lparr>dropped :=
          (dropped (control q))(unat (eventType entry) :=
             dropped (control q) (unat (eventType entry)) + 1)\<rparr>\<rparr>"

definition enqueue_event :: "'p UvmEventEntry \<Rightarrow> 'p uvm_tools_queue_t \<Rightarrow> 'p uvm_tools_queue_t" where
  "enqueue_event entry q =
     (let queue_size = queue_buffer_count q;
          queue_mask = queue_size - 1;
          sn0 = \<lparr>sn_get_ahead = 0,
                 sn_get_behind = get_behind (control q) AND queue_mask,
                 sn_put_ahead = 0,
                 sn_put_behind = put_behind (control q) AND queue_mask\<rparr>;
          sn1 = sn0\<lparr>sn_put_ahead := (sn_put_behind sn0 + 1) AND queue_mask\<rparr>
      in if ((queue_size + sn_get_behind sn1 - sn_put_behind sn1) AND queue_mask) = 1
         then inc_dropped entry q
         else
           let q1 = q\<lparr>queue := (queue q)(unat (sn_put_behind sn1) := entry)\<rparr>;
               sn2 = sn1\<lparr>sn_put_behind := sn_put_ahead sn1\<rparr>;
               q2 = q1\<lparr>control := (control q1)\<lparr>put_ahead := sn_put_behind sn2,
                                                 put_behind := sn_put_behind sn2\<rparr>\<rparr>;
               sn3 = sn2\<lparr>sn_get_ahead := get_ahead (control q2)\<rparr>
           in if queue_needs_wakeup q2 sn3
                 \<and> \<not> (is_wakeup_get_valid q2 \<and> wakeup_get q2 = sn_get_ahead sn3)
              then q2\<lparr>is_wakeup_get_valid := True,
                      wakeup_get := sn_get_ahead sn3,
                      wait_queue_flushes := Suc (wait_queue_flushes q2)\<rparr>
              else q2)"

text \<open>Several enqueues in a row, the consumer writing nothing in between.\<close>

definition enqueue_events :: "'p UvmEventEntry list \<Rightarrow> 'p uvm_tools_queue_t \<Rightarrow> 'p uvm_tools_queue_t" where
  "enqueue_events es q = fold enqueue_event es q"

text \<open>
  The number of records stored and not yet consumed, as a consumer computes it from the
  cursors: \<open>(put_behind - get_behind) mod capacity\<close>.
\<close>

definition stored_count :: "'p uvm_tools_queue_t \<Rightarrow> nat" where
  "stored_count q =
     unat ((put_behind (control q) - get_behind (control q)) AND (queue_buffer_count q - 1))"

text \<open>The slot the next stored record goes to.\<close>

definition put_index :: "'p uvm_tools_queue_t \<Rightarrow> nat" where
  "put_index q = unat (put_behind (control q) AND (queue_buffer_count q - 1))"

text \<open>The slot of the oldest record not yet consumed.\<close>

definition get_index :: "'p uvm_tools_queue_t \<Rightarrow> nat" where
  "get_index q = unat (get_behind (control q) AND (queue_buffer_count q - 1))"

text \<open>
  An empty queue of capacity 4 with notification threshold 2, a queue of capacity 1, and
  entries of event type 2.
\<close>

definition example_queue1 :: "nat uvm_tools_queue_t" where
  "example_queue1 =
     \<lparr>subscribed_queues = 4, queue = (\<lambda>_. \<lparr>eventType = 0, payload = 0\<rparr>),
      queue_buffer_count = 1, notification_threshold = 0,
      control = \<lparr>get_ahead = 0, get_behind = 0, put_ahead = 0, put_behind = 0,
                 dropped = (\<lambda>_. 0)\<rparr>,
      wait_queue_flushes = 0, is_wakeup_get_valid = False, wakeup_get = 0\<rparr>"


definition example_queue :: "nat uvm_tools_queue_t" where
  "example_queue =
     \<lparr>subscribed_queues = 4, queue = (\<lambda>_. \<lparr>eventType = 0, payload = 0\<rparr>),
      queue_buffer_count = 4, notification_threshold = 2,
      control = \<lparr>get_ahead = 0, get_behind = 0, put_ahead = 0, put_behind = 0,
                 dropped = (\<lambda>_. 0)\<rparr>,
      wait_queue_flushes = 0, is_wakeup_get_valid = False, wakeup_get = 0\<rparr>"

definition example_entry :: "nat \<Rightarrow> nat UvmEventEntry" where
  "example_entry n = \<lparr>eventType = 2, payload = n\<rparr>"

text \<open>
  The queue with the two cursors that \<open>enqueue_event\<close> masks replaced by their masked
  values; used to state that an enqueue depends on them through the masked values only.
\<close>

definition mask_cursors :: "'p uvm_tools_queue_t \<Rightarrow> 'p uvm_tools_queue_t" where
  "mask_cursors q =
     q\<lparr>control := (control q)
          \<lparr>get_behind := get_behind (control q) AND (queue_buffer_count q - 1),
           put_behind := put_behind (control q) AND (queue_buffer_count q - 1)\<rparr>\<rparr>"

text \<open>
  The capacity-4 queue with a wakeup already signaled for the get-ahead value 3, and the
  consumer's get-ahead cursor set to a given value.
\<close>

definition example_queue_ga :: "32 word \<Rightarrow> nat uvm_tools_queue_t" where
  "example_queue_ga ga =
     example_queue\<lparr>control := (control example_queue)\<lparr>get_ahead := ga\<rparr>,
                   is_wakeup_get_valid := True, wakeup_get := 3\<rparr>"

text \<open>The capacity-4 queue after the consumer has written arbitrary values into its cursors.\<close>

definition example_queue_wild :: "nat uvm_tools_queue_t" where
  "example_queue_wild =
     example_queue\<lparr>control := (control example_queue)
        \<lparr>get_ahead := 0xFFFFFFFF, get_behind := 0xFFFFFFF1, put_behind := 0xABCDEF07\<rparr>\<rparr>"

subsection \<open>Recording an event in a collector\<close>

text \<open>
  A queue tracker is linked into one list per event type it subscribes to. The queues
  live in a store, from references to objects; \<open>va_space->tools.queues[type]\<close> is a
  list of references, in list order.
\<close>

type_synonym 'p queue_store = "nat \<Rightarrow> 'p uvm_tools_queue_t"

text \<open>
  The loop \<open>list_for_each_entry(queue, ...) enqueue_event(entry, queue)\<close>: the entry is
  enqueued on every queue of a list of references, in list order.
\<close>

definition enqueue_on_all :: "nat list \<Rightarrow> 'p UvmEventEntry \<Rightarrow> 'p queue_store \<Rightarrow> 'p queue_store" where
  "enqueue_on_all rs entry st = fold (\<lambda>r st. st(r := enqueue_event entry (st r))) rs st"

definition uvm_tools_record_event ::
  "uvm_consts \<Rightarrow> (nat \<Rightarrow> nat list) \<Rightarrow> 'p UvmEventEntry \<Rightarrow> 'p queue_store \<Rightarrow> error + 'p queue_store" where
  "uvm_tools_record_event k tools_queues entry st =
     (if \<not> unat (eventType entry) < UvmEventNumTypesAll k then Inl Assert_failed
      else Inr (enqueue_on_all (tools_queues (unat (eventType entry))) entry st))"

subsection \<open>Deferred migration events\<close>

text \<open>
  \<open>migration_data_t\<close>, one pending migration of a batch, and \<open>block_migration_data_t\<close>,
  the batch. The list \<open>events\<close> of the batch holds references to its
  \<open>migration_data_t\<close> objects in insertion order. Both kinds of object are allocated
  from a cache of their own; a cache is modelled by the map from the addresses of its live
  objects to their contents, and \<open>kmem_cache_free\<close> removes an address from the map.
  Reading through an address that is not live is the error \<open>Invalid_pointer\<close>.
\<close>

record migration_data_t =
  mig_bytes :: "64 word"
  mig_address :: "64 word"
  end_timestamp_gpu :: "64 word"
  mig_cause :: "32 word"

record block_migration_data_t =
  bm_dst :: "32 word"
  bm_src :: "32 word"
  bm_events :: "nat list"
  start_timestamp_cpu :: "64 word"
  end_timestamp_cpu :: "64 word"
  start_timestamp_gpu :: "64 word"
  range_group_id :: "64 word"

text \<open>
  The fields of \<open>UvmEventMigrationInfo\<close> that this file assigns, the event type apart
  (it is the first byte of the entry). The cause and the two processor indices are
  one-byte fields (\<open>NvU8\<close>): a 32-bit value assigned to one of them, the value of a
  processor id or a cause of the enumeration, is truncated to its low 8 bits.
\<close>

record UvmEventMigrationInfo =
  migrationCause :: "8 word"
  srcIndex :: "8 word"
  dstIndex :: "8 word"
  address :: "64 word"
  migratedBytes :: "64 word"
  beginTimeStamp :: "64 word"
  endTimeStamp :: "64 word"
  rangeGroupId :: "64 word"
  beginTimeStampGpu :: "64 word"
  endTimeStampGpu :: "64 word"

record tools_deferred_state =
  g_tools_block_migration_data_cache :: "nat \<rightharpoonup> block_migration_data_t"
  g_tools_migration_data_cache :: "nat \<rightharpoonup> migration_data_t"
  tools_queue_store :: "UvmEventMigrationInfo queue_store"

text \<open>\<open>memset(&entry, 0, sizeof(entry))\<close> on a migration entry.\<close>

definition memset_zero_migration_entry :: "UvmEventMigrationInfo UvmEventEntry" where
  "memset_zero_migration_entry =
     \<lparr>eventType = 0,
      payload = \<lparr>migrationCause = 0, srcIndex = 0, dstIndex = 0, address = 0,
                 migratedBytes = 0, beginTimeStamp = 0, endTimeStamp = 0, rangeGroupId = 0,
                 beginTimeStampGpu = 0, endTimeStampGpu = 0\<rparr>\<rparr>"

text \<open>\<open>list_del(&mig->events_node)\<close>: unlink the node from the list of the batch.\<close>

definition list_del_event :: "nat \<Rightarrow> nat \<Rightarrow> tools_deferred_state \<Rightarrow> tools_deferred_state" where
  "list_del_event bp p s =
     (case g_tools_block_migration_data_cache s bp of
        None \<Rightarrow> s
      | Some b \<Rightarrow> s\<lparr>g_tools_block_migration_data_cache :=
                       (g_tools_block_migration_data_cache s)
                         (bp \<mapsto> b\<lparr>bm_events := remove1 p (bm_events b)\<rparr>)\<rparr>)"

text \<open>
  The loop \<open>list_for_each_entry_safe\<close> of \<open>record_migration_events\<close>. It visits the
  nodes in list order; \<open>entry\<close> and \<open>gpu_timestamp\<close> are the local variables that
  survive from one iteration to the next.
\<close>

fun record_migration_loop ::
  "uvm_consts \<Rightarrow> (nat \<Rightarrow> nat list) \<Rightarrow> nat \<Rightarrow> nat list \<Rightarrow> UvmEventMigrationInfo UvmEventEntry
     \<Rightarrow> 64 word \<Rightarrow> tools_deferred_state \<Rightarrow> error + tools_deferred_state" where
  "record_migration_loop k tools_queues bp [] entry gpu_timestamp s = Inr s"
| "record_migration_loop k tools_queues bp (p # ps) entry gpu_timestamp s =
     (case g_tools_migration_data_cache s p of
        None \<Rightarrow> Inl Invalid_pointer
      | Some mig \<Rightarrow>
          if \<not> mig_bytes mig > 0 then Inl Assert_failed
          else
            let s1 = list_del_event bp p s;
                entry' = entry\<lparr>payload := (payload entry)
                           \<lparr>address := mig_address mig,
                            migratedBytes := mig_bytes mig,
                            beginTimeStampGpu := gpu_timestamp,
                            endTimeStampGpu := end_timestamp_gpu mig,
                            migrationCause := ucast (mig_cause mig)\<rparr>\<rparr>;
                gpu_timestamp' = end_timestamp_gpu mig;
                s2 = s1\<lparr>g_tools_migration_data_cache :=
                          (g_tools_migration_data_cache s1)(p := None)\<rparr>
            in (case uvm_tools_record_event k tools_queues entry' (tools_queue_store s2) of
                  Inl e \<Rightarrow> Inl e
                | Inr st \<Rightarrow>
                    record_migration_loop k tools_queues bp ps entry' gpu_timestamp'
                      (s2\<lparr>tools_queue_store := st\<rparr>)))"

text \<open>
  The entry before the loop: zeroed, then the fields that are constant throughout the
  whole batch.
\<close>

definition init_migration_entry ::
  "uvm_consts \<Rightarrow> block_migration_data_t \<Rightarrow> UvmEventMigrationInfo UvmEventEntry" where
  "init_migration_entry k block_mig =
     memset_zero_migration_entry
       \<lparr>eventType := of_nat (UvmEventTypeMigration k),
        payload := (payload memset_zero_migration_entry)
          \<lparr>srcIndex := ucast (bm_src block_mig),
           dstIndex := ucast (bm_dst block_mig),
           beginTimeStamp := start_timestamp_cpu block_mig,
           endTimeStamp := end_timestamp_cpu block_mig,
           rangeGroupId := range_group_id block_mig\<rparr>\<rparr>"

definition record_migration_events ::
  "uvm_consts \<Rightarrow> (nat \<Rightarrow> nat list) \<Rightarrow> nat \<Rightarrow> tools_deferred_state
     \<Rightarrow> error + tools_deferred_state" where
  "record_migration_events k tools_queues bp s =
     (case g_tools_block_migration_data_cache s bp of
        None \<Rightarrow> Inl Invalid_pointer
      | Some block_mig \<Rightarrow>
          let gpu_timestamp = start_timestamp_gpu block_mig;
              entry = init_migration_entry k block_mig
          in (case record_migration_loop k tools_queues bp (bm_events block_mig) entry
                     gpu_timestamp s of
                Inl e \<Rightarrow> Inl e
              | Inr s' \<Rightarrow>
                  (case g_tools_block_migration_data_cache s' bp of
                     None \<Rightarrow> Inl Invalid_pointer
                   | Some b' \<Rightarrow>
                       if bm_events b' \<noteq> [] then Inl Assert_failed
                       else Inr (s'\<lparr>g_tools_block_migration_data_cache :=
                                      (g_tools_block_migration_data_cache s')(bp := None)\<rparr>))))"

text \<open>
  The event the claim expects for one sub-event of a batch: the fields of the batch, the
  fields of the sub-event and the given begin GPU timestamp, the cause and the processor
  indices truncated to the byte that holds them.
\<close>

definition migration_event ::
  "uvm_consts \<Rightarrow> block_migration_data_t \<Rightarrow> 64 word \<Rightarrow> migration_data_t
     \<Rightarrow> UvmEventMigrationInfo UvmEventEntry" where
  "migration_event k b begin_gpu mig =
     \<lparr>eventType = of_nat (UvmEventTypeMigration k),
      payload = \<lparr>migrationCause = ucast (mig_cause mig), srcIndex = ucast (bm_src b),
                 dstIndex = ucast (bm_dst b),
                 address = mig_address mig, migratedBytes = mig_bytes mig,
                 beginTimeStamp = start_timestamp_cpu b, endTimeStamp = end_timestamp_cpu b,
                 rangeGroupId = range_group_id b,
                 beginTimeStampGpu = begin_gpu, endTimeStampGpu = end_timestamp_gpu mig\<rparr>\<rparr>"

text \<open>The events expected for the sub-events \<open>migs\<close>, each beginning where the one before ended.\<close>

definition migration_events ::
  "uvm_consts \<Rightarrow> block_migration_data_t \<Rightarrow> migration_data_t list
     \<Rightarrow> UvmEventMigrationInfo UvmEventEntry list" where
  "migration_events k b migs =
     map (\<lambda>i. migration_event k b
                 (if i = 0 then start_timestamp_gpu b else end_timestamp_gpu (migs ! (i - 1)))
                 (migs ! i))
       [0..<length migs]"


text \<open>
  The events of a batch written as a recursion over the sub-events, each beginning at the
  timestamp handed on by the one before.
\<close>

fun migration_chain ::
  "uvm_consts \<Rightarrow> block_migration_data_t \<Rightarrow> 64 word \<Rightarrow> migration_data_t list
     \<Rightarrow> UvmEventMigrationInfo UvmEventEntry list" where
  "migration_chain k b ts [] = []"
| "migration_chain k b ts (m # ms) =
     migration_event k b ts m # migration_chain k b (end_timestamp_gpu m) ms"

text \<open>The sub-events of a batch, read through the references of its list.\<close>

definition batch_details :: "tools_deferred_state \<Rightarrow> block_migration_data_t \<Rightarrow> migration_data_t list" where
  "batch_details s b = map (\<lambda>p. the (g_tools_migration_data_cache s p)) (bm_events b)"

text \<open>
  A batch of two sub-events at address 100, from processor id 258 to processor id 300,
  its details at the addresses 10 and 11, the first with the cause 257, and one empty queue of capacity 4, reference 0, subscribed to the migration event type.
\<close>

definition example_deferred_state :: tools_deferred_state where
  "example_deferred_state =
     \<lparr>g_tools_block_migration_data_cache =
        [100 \<mapsto> \<lparr>bm_dst = 300, bm_src = 258, bm_events = [10, 11],
                  start_timestamp_cpu = 5, end_timestamp_cpu = 9,
                  start_timestamp_gpu = 1000, range_group_id = 0\<rparr>],
      g_tools_migration_data_cache =
        [10 \<mapsto> \<lparr>mig_bytes = 4096, mig_address = 0x10000, end_timestamp_gpu = 1100, mig_cause = 257\<rparr>,
         11 \<mapsto> \<lparr>mig_bytes = 8192, mig_address = 0x20000, end_timestamp_gpu = 1250, mig_cause = 1\<rparr>],
      tools_queue_store =
        (\<lambda>_. \<lparr>subscribed_queues = 4, queue = (\<lambda>_. memset_zero_migration_entry),
               queue_buffer_count = 4, notification_threshold = 2,
               control = \<lparr>get_ahead = 0, get_behind = 0, put_ahead = 0, put_behind = 0,
                          dropped = (\<lambda>_. 0)\<rparr>,
               wait_queue_flushes = 0, is_wakeup_get_valid = False, wakeup_get = 0\<rparr>)\<rparr>"

definition example_tools_queues :: "nat \<Rightarrow> nat list" where
  "example_tools_queues t = (if t = 2 then [0] else [])"

subsection \<open>The split-invalidate test event\<close>

text \<open>
  \<open>uvm_tools_test_hmm_split_invalidate\<close> declares \<open>UvmEventEntry entry\<close> and assigns the
  event type only; there is no \<open>memset\<close>. The other bytes of the local variable are what
  the stack held before, a parameter of the model (\<open>stack\<close>). \<open>enabled\<close> is
  \<open>va_space->tools.enabled\<close>.
\<close>

definition uvm_tools_test_hmm_split_invalidate ::
  "uvm_consts \<Rightarrow> bool \<Rightarrow> (nat \<Rightarrow> nat list) \<Rightarrow> 'p UvmEventEntry \<Rightarrow> 'p queue_store
     \<Rightarrow> error + 'p queue_store" where
  "uvm_tools_test_hmm_split_invalidate k enabled tools_queues stack st =
     (if \<not> enabled then Inr st
      else
        let entry = stack\<lparr>eventType := of_nat (UvmEventTypeTestHmmSplitInvalidate k)\<rparr>
        in uvm_tools_record_event k tools_queues entry st)"

text \<open>
  An empty queue of capacity 4 whose entries are an event type and four further bytes,
  all slots zero, subscribed to the event type 62.
\<close>

definition example_byte_queue :: "8 word list uvm_tools_queue_t" where
  "example_byte_queue =
     \<lparr>subscribed_queues = push_bit 62 1,
      queue = (\<lambda>_. \<lparr>eventType = 0, payload = [0, 0, 0, 0]\<rparr>),
      queue_buffer_count = 4, notification_threshold = 2,
      control = \<lparr>get_ahead = 0, get_behind = 0, put_ahead = 0, put_behind = 0,
                 dropped = (\<lambda>_. 0)\<rparr>,
      wait_queue_flushes = 0, is_wakeup_get_valid = False, wakeup_get = 0\<rparr>"

subsection \<open>Subscription registry\<close>

text \<open>
  \<open>insert_event_tracker\<close> and \<open>remove_event_tracker\<close>. \<open>node\<close> is the reference of the
  tracker whose list nodes \<open>node + i\<close> are linked; \<open>list_heads\<close> is the array \<open>lists\<close> of heads
  (\<open>va_space->tools.queues\<close> or \<open>va_space->tools.counters\<close>), each list a list of
  tracker references; \<open>counts\<close> is the global array \<open>g_tools_enabled_event_count\<close>.
  \<open>list_add\<close> links the node right after the head, at the front of the list; \<open>list_del\<close>
  unlinks it. The result gives the new counts, lists and subscribed mask (and, for the
  insertion, \<open>*inserted_lists\<close>).
\<close>

definition insert_step ::
  "nat \<Rightarrow> 64 word \<Rightarrow> nat \<Rightarrow> (nat \<Rightarrow> 32 word) \<times> (nat \<Rightarrow> nat list)
     \<Rightarrow> (nat \<Rightarrow> 32 word) \<times> (nat \<Rightarrow> nat list)" where
  "insert_step node insertable_lists i cl =
     (if insertable_lists AND push_bit i 1 \<noteq> 0
      then ((fst cl)(i := fst cl i + 1), (snd cl)(i := node # snd cl i))
      else cl)"

definition insert_event_tracker ::
  "nat \<Rightarrow> nat \<Rightarrow> 64 word \<Rightarrow> 64 word \<Rightarrow> (nat \<Rightarrow> nat list) \<Rightarrow> (nat \<Rightarrow> 32 word)
     \<Rightarrow> (nat \<Rightarrow> 32 word) \<times> (nat \<Rightarrow> nat list) \<times> 64 word \<times> 64 word" where
  "insert_event_tracker node list_count list_mask subscribed_mask list_heads counts =
     (let insertable_lists = list_mask AND NOT subscribed_mask;
          cl = fold (insert_step node insertable_lists) [0..<list_count] (counts, list_heads)
      in (fst cl, snd cl, subscribed_mask OR list_mask, insertable_lists))"

definition remove_step ::
  "nat \<Rightarrow> 64 word \<Rightarrow> nat \<Rightarrow> error + (nat \<Rightarrow> 32 word) \<times> (nat \<Rightarrow> nat list)
     \<Rightarrow> error + (nat \<Rightarrow> 32 word) \<times> (nat \<Rightarrow> nat list)" where
  "remove_step node removable_lists i r =
     (case r of
        Inl e \<Rightarrow> Inl e
      | Inr cl \<Rightarrow>
          if removable_lists AND push_bit i 1 \<noteq> 0
          then (if \<not> fst cl i > 0 then Inl Assert_failed
                else Inr ((fst cl)(i := fst cl i - 1), (snd cl)(i := remove1 node (snd cl i))))
          else Inr cl)"

definition remove_event_tracker ::
  "nat \<Rightarrow> nat \<Rightarrow> 64 word \<Rightarrow> 64 word \<Rightarrow> (nat \<Rightarrow> nat list) \<Rightarrow> (nat \<Rightarrow> 32 word)
     \<Rightarrow> error + (nat \<Rightarrow> 32 word) \<times> (nat \<Rightarrow> nat list) \<times> 64 word" where
  "remove_event_tracker node list_count list_mask subscribed_mask list_heads counts =
     (let removable_lists = list_mask AND subscribed_mask
      in case fold (remove_step node removable_lists) [0..<list_count] (Inr (counts, list_heads)) of
           Inl e \<Rightarrow> Inl e
         | Inr cl \<Rightarrow> Inr (fst cl, snd cl, subscribed_mask AND NOT list_mask))"

text \<open>
  The registry of the queue subscribers of all collectors: the global counts, the lists
  \<open>tools.queues\<close> of every collector and the subscribed mask of every queue tracker.
  A tracker belongs to the collector of its \<open>uvm_file\<close>, given by \<open>space_of\<close>.
\<close>

record tools_registry =
  g_tools_enabled_event_count :: "nat \<Rightarrow> 32 word"
  va_space_queues :: "nat \<Rightarrow> nat \<Rightarrow> nat list"
  tracker_subscribed_queues :: "nat \<Rightarrow> 64 word"

text \<open>
  Modelled from the spec: the caller of \<open>insert_event_tracker\<close> for a queue tracker (the
  enable request) is not in this file. \<open>subscribe\<close> appends the subscriber to the lists of
  the collector for the bits of the mask not already subscribed; the arguments are those
  that \<open>destroy_event_tracker\<close> passes to \<open>remove_event_tracker\<close>.
\<close>

definition subscribe :: "uvm_consts \<Rightarrow> (nat \<Rightarrow> nat) \<Rightarrow> nat \<Rightarrow> 64 word \<Rightarrow> tools_registry \<Rightarrow> tools_registry" where
  "subscribe k space_of t list_mask s =
     (case insert_event_tracker t (UvmEventNumTypesAll k) list_mask (tracker_subscribed_queues s t)
             (va_space_queues s (space_of t)) (g_tools_enabled_event_count s) of
        (counts, list_heads, subscribed_mask, inserted_lists) \<Rightarrow>
          s\<lparr>g_tools_enabled_event_count := counts,
            va_space_queues := (va_space_queues s)(space_of t := list_heads),
            tracker_subscribed_queues := (tracker_subscribed_queues s)(t := subscribed_mask)\<rparr>)"

text \<open>
  The removal of a queue tracker from the lists of a mask, as \<open>destroy_event_tracker\<close>
  does it with the whole subscribed mask.
\<close>

definition unsubscribe ::
  "uvm_consts \<Rightarrow> (nat \<Rightarrow> nat) \<Rightarrow> nat \<Rightarrow> 64 word \<Rightarrow> tools_registry \<Rightarrow> error + tools_registry" where
  "unsubscribe k space_of t list_mask s =
     (case remove_event_tracker t (UvmEventNumTypesAll k) list_mask (tracker_subscribed_queues s t)
             (va_space_queues s (space_of t)) (g_tools_enabled_event_count s) of
        Inl e \<Rightarrow> Inl e
      | Inr (counts, list_heads, subscribed_mask) \<Rightarrow>
          Inr (s\<lparr>g_tools_enabled_event_count := counts,
                 va_space_queues := (va_space_queues s)(space_of t := list_heads),
                 tracker_subscribed_queues := (tracker_subscribed_queues s)(t := subscribed_mask)\<rparr>))"

datatype registry_op = Subscribe nat "64 word" | Unsubscribe nat "64 word"

fun op_tracker :: "registry_op \<Rightarrow> nat" where
  "op_tracker (Subscribe t m) = t"
| "op_tracker (Unsubscribe t m) = t"

fun registry_step ::
  "uvm_consts \<Rightarrow> (nat \<Rightarrow> nat) \<Rightarrow> registry_op \<Rightarrow> tools_registry \<Rightarrow> error + tools_registry" where
  "registry_step k space_of (Subscribe t m) s = Inr (subscribe k space_of t m s)"
| "registry_step k space_of (Unsubscribe t m) s = unsubscribe k space_of t m s"

fun registry_run ::
  "uvm_consts \<Rightarrow> (nat \<Rightarrow> nat) \<Rightarrow> registry_op list \<Rightarrow> tools_registry \<Rightarrow> error + tools_registry" where
  "registry_run k space_of [] s = Inr s"
| "registry_run k space_of (x # xs) s =
     (case registry_step k space_of x s of
        Inl e \<Rightarrow> Inl e
      | Inr s' \<Rightarrow> registry_run k space_of xs s')"

text \<open>The registry at module load: no subscriber, all counts zero.\<close>

definition registry_init :: tools_registry where
  "registry_init =
     \<lparr>g_tools_enabled_event_count = (\<lambda>_. 0), va_space_queues = (\<lambda>_ _. []),
      tracker_subscribed_queues = (\<lambda>_. 0)\<rparr>"

text \<open>The trackers subscribed to an event type, over all collectors.\<close>

definition subscribers :: "tools_registry \<Rightarrow> nat \<Rightarrow> nat set" where
  "subscribers s i = {t. bit (tracker_subscribed_queues s t) i}"

text \<open>
  The invariant of the registry: only trackers below the bound \<open>B\<close> are subscribed
  to anything; the list of a collector for an event type holds, once each, the trackers of
  that collector whose subscribed mask has the bit of that type; the count of a type is
  the number of trackers subscribed to it, in 32 bits.
\<close>

definition registry_inv :: "uvm_consts \<Rightarrow> (nat \<Rightarrow> nat) \<Rightarrow> nat \<Rightarrow> tools_registry \<Rightarrow> bool" where
  "registry_inv k space_of B s =
     ((\<forall>t. tracker_subscribed_queues s t \<noteq> 0 \<longrightarrow> t < B)
      \<and> (\<forall>vs i. distinct (va_space_queues s vs i))
      \<and> (\<forall>vs i. set (va_space_queues s vs i) =
            {t. space_of t = vs \<and> i < UvmEventNumTypesAll k \<and> bit (tracker_subscribed_queues s t) i})
      \<and> (\<forall>i<UvmEventNumTypesAll k.
            g_tools_enabled_event_count s i = of_nat (card (subscribers s i))))"

subsection \<open>Producer callbacks and the active state of a collector\<close>

datatype NV_STATUS = NV_OK | NV_ERR_NO_MEMORY | NV_ERR_INVALID_ARGUMENT | NV_ERR_INVALID_ADDRESS

datatype uvm_perf_event_t = UVM_PERF_EVENT_FAULT | UVM_PERF_EVENT_MIGRATION

text \<open>
  The tracing fields of a \<open>uvm_va_space_t\<close>: \<open>tools.enabled\<close>, the subscriber lists
  \<open>tools.queues\<close> and \<open>tools.counters\<close>, and for each perf event whether the callback
  of this file (\<open>uvm_tools_record_fault\<close>, \<open>uvm_tools_record_migration\<close>) is registered
  in \<open>perf_events\<close>, which is what \<open>uvm_perf_is_event_callback_registered\<close> returns.
\<close>

record uvm_va_space_tools =
  va_tools_enabled :: bool
  va_tools_queues :: "nat \<Rightarrow> nat list"
  va_tools_counters :: "nat \<Rightarrow> nat list"
  va_perf_registered :: "uvm_perf_event_t \<Rightarrow> bool"

text \<open>
  Modelled from the spec: \<open>uvm_perf_register_event_callback_locked\<close> and
  \<open>uvm_perf_unregister_event_callback_locked\<close> are not in this file. A registration
  returns a status, given by the parameter \<open>reg\<close> (an allocation may fail); when the
  status is \<open>NV_OK\<close> the callback is registered, otherwise nothing changes. Unregistering
  cannot fail.
\<close>

definition uvm_perf_register_event_callback_locked ::
  "(uvm_perf_event_t \<Rightarrow> NV_STATUS) \<Rightarrow> uvm_perf_event_t \<Rightarrow> (uvm_perf_event_t \<Rightarrow> bool)
     \<Rightarrow> NV_STATUS \<times> (uvm_perf_event_t \<Rightarrow> bool)" where
  "uvm_perf_register_event_callback_locked reg ev perf =
     (if reg ev = NV_OK then (NV_OK, perf(ev := True)) else (reg ev, perf))"

definition uvm_perf_unregister_event_callback_locked ::
  "uvm_perf_event_t \<Rightarrow> (uvm_perf_event_t \<Rightarrow> bool) \<Rightarrow> (uvm_perf_event_t \<Rightarrow> bool)" where
  "uvm_perf_unregister_event_callback_locked ev perf = perf(ev := False)"

text \<open>
  \<open>!list_empty(va_space->tools.counters + counter)\<close> and the same for events. The index
  assertions of the two functions hold for the enumerators and loop indices they are
  called with.
\<close>

definition tools_is_counter_enabled :: "uvm_va_space_tools \<Rightarrow> nat \<Rightarrow> bool" where
  "tools_is_counter_enabled vs counter = (va_tools_counters vs counter \<noteq> [])"

definition tools_is_event_enabled :: "uvm_va_space_tools \<Rightarrow> nat \<Rightarrow> bool" where
  "tools_is_event_enabled vs event = (va_tools_queues vs event \<noteq> [])"

definition tools_are_enabled :: "uvm_consts \<Rightarrow> uvm_va_space_tools \<Rightarrow> bool" where
  "tools_are_enabled k vs =
     (list_ex (tools_is_counter_enabled vs) [0..<UVM_TOTAL_COUNTERS k]
      \<or> list_ex (tools_is_event_enabled vs) [0..<UvmEventNumTypesAll k])"

definition tools_is_fault_callback_needed :: "uvm_consts \<Rightarrow> uvm_va_space_tools \<Rightarrow> bool" where
  "tools_is_fault_callback_needed k vs =
     (tools_is_event_enabled vs (UvmEventTypeCpuFault k)
      \<or> tools_is_event_enabled vs (UvmEventTypeGpuFault k)
      \<or> tools_is_counter_enabled vs (UvmCounterNameCpuPageFaultCount k)
      \<or> tools_is_counter_enabled vs (UvmCounterNameGpuPageFaultCount k))"

definition tools_is_migration_callback_needed :: "uvm_consts \<Rightarrow> uvm_va_space_tools \<Rightarrow> bool" where
  "tools_is_migration_callback_needed k vs =
     (tools_is_event_enabled vs (UvmEventTypeMigration k)
      \<or> tools_is_event_enabled vs (UvmEventTypeReadDuplicate k)
      \<or> tools_is_counter_enabled vs (UvmCounterNameBytesXferDtH k)
      \<or> tools_is_counter_enabled vs (UvmCounterNameBytesXferHtD k))"

text \<open>
  One of the two halves of \<open>tools_update_perf_events_callbacks\<close>: register the callback
  of an event when it is needed and not registered, unregister it when it is registered
  and not needed.
\<close>

definition update_event_callback ::
  "(uvm_perf_event_t \<Rightarrow> NV_STATUS) \<Rightarrow> uvm_perf_event_t \<Rightarrow> bool \<Rightarrow> (uvm_perf_event_t \<Rightarrow> bool)
     \<Rightarrow> NV_STATUS \<times> (uvm_perf_event_t \<Rightarrow> bool)" where
  "update_event_callback reg ev needed perf =
     (if needed
      then (if \<not> perf ev then uvm_perf_register_event_callback_locked reg ev perf
            else (NV_OK, perf))
      else (if perf ev then (NV_OK, uvm_perf_unregister_event_callback_locked ev perf)
            else (NV_OK, perf)))"

definition tools_update_perf_events_callbacks ::
  "uvm_consts \<Rightarrow> (uvm_perf_event_t \<Rightarrow> NV_STATUS) \<Rightarrow> uvm_va_space_tools
     \<Rightarrow> NV_STATUS \<times> uvm_va_space_tools" where
  "tools_update_perf_events_callbacks k reg vs =
     (case update_event_callback reg UVM_PERF_EVENT_FAULT (tools_is_fault_callback_needed k vs)
             (va_perf_registered vs) of
        (status, perf1) \<Rightarrow>
          if status \<noteq> NV_OK then (status, vs\<lparr>va_perf_registered := perf1\<rparr>)
          else
            (case update_event_callback reg UVM_PERF_EVENT_MIGRATION
                    (tools_is_migration_callback_needed k vs) perf1 of
               (status, perf2) \<Rightarrow>
                 if status \<noteq> NV_OK then (status, vs\<lparr>va_perf_registered := perf2\<rparr>)
                 else (NV_OK, vs\<lparr>va_perf_registered := perf2\<rparr>)))"

text \<open>
  \<open>tools_update_status\<close>, on the global list \<open>g_tools_va_space_list\<close> of the references
  of the active collectors and the collector \<open>va_space\<close>.
\<close>

definition tools_update_status ::
  "uvm_consts \<Rightarrow> (uvm_perf_event_t \<Rightarrow> NV_STATUS) \<Rightarrow> nat \<Rightarrow> nat list \<times> uvm_va_space_tools
     \<Rightarrow> NV_STATUS \<times> nat list \<times> uvm_va_space_tools" where
  "tools_update_status k reg va_space gv =
     (case tools_update_perf_events_callbacks k reg (snd gv) of
        (status, vs) \<Rightarrow>
          if status \<noteq> NV_OK then (status, fst gv, vs)
          else
            let should_be_enabled = tools_are_enabled k vs
            in if should_be_enabled \<noteq> va_tools_enabled vs
               then (NV_OK,
                     (if should_be_enabled then va_space # fst gv else remove1 va_space (fst gv)),
                     vs\<lparr>va_tools_enabled := should_be_enabled\<rparr>)
               else (NV_OK, fst gv, vs))"

text \<open>
  \<open>destroy_event_tracker\<close>, the detach path, for the tracker \<open>node\<close> with the given
  \<open>is_queue\<close> flag, subscribed mask and \<open>uvm_file\<close> (\<open>None\<close> for \<open>NULL\<close>, otherwise the
  collector). The state is the global count array, the global list of active collectors
  and the collector. The function returns no status: the model returns the new state, or
  \<open>Inl Assert_failed\<close> when one of its assertions fails. Unmapping the buffers and freeing
  the tracker are left out.
\<close>

definition destroy_event_tracker ::
  "uvm_consts \<Rightarrow> (uvm_perf_event_t \<Rightarrow> NV_STATUS) \<Rightarrow> nat \<Rightarrow> bool \<Rightarrow> 64 word \<Rightarrow> nat option
     \<Rightarrow> (nat \<Rightarrow> 32 word) \<times> nat list \<times> uvm_va_space_tools
     \<Rightarrow> error + (nat \<Rightarrow> 32 word) \<times> nat list \<times> uvm_va_space_tools" where
  "destroy_event_tracker k reg node is_queue subscribed uvm_file cgv =
     (case uvm_file of
        None \<Rightarrow> Inr cgv
      | Some va_space \<Rightarrow>
          (case cgv of (counts, g_list, vs) \<Rightarrow>
             (case (if is_queue
                    then map_sum id (\<lambda>(c, l, m). (c, vs\<lparr>va_tools_queues := l\<rparr>))
                           (remove_event_tracker node (UvmEventNumTypesAll k) subscribed subscribed
                              (va_tools_queues vs) counts)
                    else map_sum id (\<lambda>(c, l, m). (c, vs\<lparr>va_tools_counters := l\<rparr>))
                           (remove_event_tracker node (UVM_TOTAL_COUNTERS k) subscribed subscribed
                              (va_tools_counters vs) counts)) of
                Inl e \<Rightarrow> Inl e
              | Inr (counts', vs') \<Rightarrow>
                  (case tools_update_status k reg va_space (g_list, vs') of
                     (status, g_list', vs'') \<Rightarrow>
                       if status \<noteq> NV_OK then Inl Assert_failed
                       else Inr (counts', g_list', vs'')))))"

text \<open>
  A collector with one queue tracker subscribed to CPU faults and migrations, nothing
  registered yet, and a registration that succeeds for faults and fails for migrations.
\<close>

definition example_va_space :: uvm_va_space_tools where
  "example_va_space =
     \<lparr>va_tools_enabled = False,
      va_tools_queues = (\<lambda>t. if t = 1 \<or> t = 2 then [0] else []),
      va_tools_counters = (\<lambda>_. []),
      va_perf_registered = (\<lambda>_. False)\<rparr>"

definition example_reg :: "uvm_perf_event_t \<Rightarrow> NV_STATUS" where
  "example_reg ev = (if ev = UVM_PERF_EVENT_FAULT then NV_OK else NV_ERR_NO_MEMORY)"

subsection \<open>The list of channels with pending events and the flush\<close>

text \<open>
  Channels are named by numbers. \<open>g_tools_channel_list\<close> is the global list of the
  channels with pending events, in list order, and \<open>pending_event_count\<close> the field
  \<open>tools.pending_event_count\<close> of every channel; the channel structure is declared
  outside this file, and the type of the field is a parameter: it is a word of a width
  \<open>'w\<close> that is left open. \<open>channel_pushes\<close> holds the deferred
  records whose completion callback is installed on a push and has not run yet, each with
  its channel, in the order they were begun. \<open>g_tools_queue\<close> is the queue of the
  background worker, the records scheduled and not yet run, and \<open>delivered_records\<close> the
  records whose work item has run. \<open>progress_calls\<close> is the trace of the calls to
  \<open>uvm_channel_update_progress_all\<close>, the channel of each call.
\<close>

record ('c) tools_channel_state =
  g_tools_channel_list :: "nat list"
  pending_event_count :: "nat \<Rightarrow> 'c"
  channel_pushes :: "(nat \<times> nat) list"
  g_tools_queue :: "nat list"
  delivered_records :: "nat list"
  progress_calls :: "nat list"














text \<open>
  The state between two flushes: no entry of the list is retained. The count of a
  channel is the number of its records in \<open>channel_pushes\<close> (one more for a channel of
  \<open>R\<close>, the retained ones), a channel is on the list when its count is not zero, and no
  channel is twice on the list. The numbers stay within 64 bits.
\<close>

definition pushes_on :: "nat \<Rightarrow> ('w::len) word tools_channel_state \<Rightarrow> (nat \<times> nat) list" where
  "pushes_on channel s = filter (\<lambda>p. snd p = channel) (channel_pushes s)"

definition channel_inv :: "nat set \<Rightarrow> ('w::len) word tools_channel_state \<Rightarrow> bool" where
  "channel_inv R s \<longleftrightarrow>
     distinct (g_tools_channel_list s)
     \<and> (\<forall>c. unat (pending_event_count s c) = length (pushes_on c s) + (if c \<in> R then 1 else 0))
     \<and> (\<forall>c. c \<in> set (g_tools_channel_list s) \<longleftrightarrow> pending_event_count s c \<noteq> 0)"




subsection \<open>Properties of the counter aggregator\<close>

lemma inc_counter_step_other:
  "r' \<noteq> r \<Longrightarrow> inc_counter_step k c a p r st r' = st r'"
  by (simp add: inc_counter_step_def)

lemma fold_inc_counter_step_notin:
  "r \<notin> set rs \<Longrightarrow> fold (inc_counter_step k c a p) rs st r = st r"
  by (induction rs arbitrary: st) (auto simp: inc_counter_step_other)

lemma inc_counter_step_flags:
  "all_processors (inc_counter_step k c a p r st r') = all_processors (st r')
   \<and> processor (inc_counter_step k c a p r st r') = processor (st r')
   \<and> subscribed_counters (inc_counter_step k c a p r st r') = subscribed_counters (st r')"
  by (simp add: inc_counter_step_def atomic64_add_counter_def)

lemma fold_inc_counter_step_flags:
  "all_processors (fold (inc_counter_step k c a p) rs st r) = all_processors (st r)
   \<and> processor (fold (inc_counter_step k c a p) rs st r) = processor (st r)
   \<and> subscribed_counters (fold (inc_counter_step k c a p) rs st r) = subscribed_counters (st r)"
  by (induction rs arbitrary: st) (simp_all add: inc_counter_step_flags)

lemma inc_counter_step_other_counter:
  "c' \<noteq> c \<Longrightarrow> counters (inc_counter_step k c a p r st r') c' = counters (st r') c'"
  by (simp add: inc_counter_step_def atomic64_add_counter_def)

lemma fold_inc_counter_step_other_counter:
  "c' \<noteq> c \<Longrightarrow> counters (fold (inc_counter_step k c a p) rs st r) c' = counters (st r) c'"
  by (induction rs arbitrary: st) (simp_all add: inc_counter_step_other_counter)

lemma fold_inc_counter_step_in:
  "distinct rs \<Longrightarrow> r \<in> set rs \<Longrightarrow>
   counters (fold (inc_counter_step k c a p) rs st r) c =
     (if (all_processors (st r) \<and> counter_matches_processor k c p)
         \<or> uvm_processor_uuid_eq (processor (st r)) p
      then counters (st r) c + a else counters (st r) c)"
proof (induction rs arbitrary: st)
  case Nil
  then show ?case by simp
next
  case (Cons x xs)
  show ?case
  proof (cases "x = r")
    case True
    with Cons.prems have "r \<notin> set xs" by simp
    then have "fold (inc_counter_step k c a p) (x # xs) st r = inc_counter_step k c a p r st r"
      using True by (simp add: fold_inc_counter_step_notin)
    moreover have "counters (inc_counter_step k c a p r st r) c =
       (if (all_processors (st r) \<and> counter_matches_processor k c p)
           \<or> uvm_processor_uuid_eq (processor (st r)) p
        then counters (st r) c + a else counters (st r) c)"
      by (simp add: inc_counter_step_def atomic64_add_counter_def)
    ultimately show ?thesis by (simp only:)
  next
    case False
    with Cons.prems have "distinct xs" "r \<in> set xs" by auto
    from Cons.IH [OF this, of "inc_counter_step k c a p x st"] False show ?thesis
      by (simp add: inc_counter_step_other)
  qed
qed

text \<open>
  C10. An increment by the amount 0 changes nothing: for every collector (its subscriber
  lists), counter id in range and processor identity, the call returns the store of the
  subscribers as it was, so every accumulator of every subscriber is unchanged.
\<close>

theorem inc_counter_zero_noop:
  "counter < UVM_TOTAL_COUNTERS k \<Longrightarrow>
   uvm_tools_inc_counter k tools_counters counter 0 proc st = Inr st"
  by (simp add: uvm_tools_inc_counter_def)

theorem inc_counter_zero_noop_witness:
  "(2::nat) < UVM_TOTAL_COUNTERS example_consts \<and>
   uvm_tools_inc_counter example_consts (\<lambda>_. [0, 1]) 2 0 [0] example_counter_store
     = Inr example_counter_store"
  using inc_counter_zero_noop [of 2 example_consts "\<lambda>_. [0, 1]" "[0]" example_counter_store]
  by (simp add: example_consts_def)

text \<open>
  C4. One call of the increment operation with a non-zero amount adds the amount to the
  accumulator of a subscriber of that counter exactly once when the all-processors rule or
  the exact-identity rule applies (once also when both conditions hold), and leaves it
  alone when neither applies. For the legacy CPU page-fault counter the all-processors rule
  applies only when the identity is the default CPU identity; for every other counter an
  all-processors subscriber is incremented whatever the identity, and a specific-processor
  subscriber exactly when its identity matches. Accumulators of other counters and of
  trackers that are not subscribed to the counter do not change.
\<close>

theorem inc_counter_rules:
  assumes "counter < UVM_TOTAL_COUNTERS k" and "0 < amount"
    and "distinct (tools_counters counter)" and "r \<in> set (tools_counters counter)"
  shows "\<exists>st'. uvm_tools_inc_counter k tools_counters counter amount proc st = Inr st'
    \<and> counters (st' r) counter =
        (if counter = UvmCounterNameCpuPageFaultCount k
         then (if (all_processors (st r) \<and> proc = NV_PROCESSOR_UUID_CPU_DEFAULT k)
                  \<or> processor (st r) = proc
               then counters (st r) counter + amount else counters (st r) counter)
         else (if all_processors (st r) \<or> processor (st r) = proc
               then counters (st r) counter + amount else counters (st r) counter))
    \<and> (\<forall>r' c'. c' \<noteq> counter \<longrightarrow> counters (st' r') c' = counters (st r') c')
    \<and> (\<forall>r'. r' \<notin> set (tools_counters counter) \<longrightarrow> st' r' = st r')
    \<and> (\<forall>r'. all_processors (st' r') = all_processors (st r')
              \<and> processor (st' r') = processor (st r'))"
proof -
  let ?st' = "fold (inc_counter_step k counter amount proc) (tools_counters counter) st"
  have run: "uvm_tools_inc_counter k tools_counters counter amount proc st = Inr ?st'"
    using assms(1,2) by (simp add: uvm_tools_inc_counter_def)
  have acc: "counters (?st' r) counter =
        (if counter = UvmCounterNameCpuPageFaultCount k
         then (if (all_processors (st r) \<and> proc = NV_PROCESSOR_UUID_CPU_DEFAULT k)
                  \<or> processor (st r) = proc
               then counters (st r) counter + amount else counters (st r) counter)
         else (if all_processors (st r) \<or> processor (st r) = proc
               then counters (st r) counter + amount else counters (st r) counter))"
    using fold_inc_counter_step_in [OF assms(3,4), of k counter amount proc st]
    by (simp add: counter_matches_processor_def uvm_processor_uuid_eq_def eq_commute)
  show ?thesis
    using run acc
    by (simp add: fold_inc_counter_step_other_counter fold_inc_counter_step_notin
        fold_inc_counter_step_flags)
qed

theorem inc_counter_rules_witness:
  "\<exists>st'. uvm_tools_inc_counter example_consts (\<lambda>_. [0, 1]) 2 1 [0] example_counter_store = Inr st'
     \<and> counters (st' 0) 2 = 1 \<and> counters (st' 1) 2 = 0"
proof -
  have a: "(2::nat) < UVM_TOTAL_COUNTERS example_consts" by (simp add: example_consts_def)
  have b: "(0::64 word) < 1" by simp
  have c: "distinct ((\<lambda>_. [0, 1::nat]) (2::nat))" by simp
  have d0: "(0::nat) \<in> set ((\<lambda>_. [0, 1::nat]) (2::nat))" by simp
  have d1: "(1::nat) \<in> set ((\<lambda>_. [0, 1::nat]) (2::nat))" by simp
  from inc_counter_rules [OF a b c d0, of "[0]" example_counter_store]
       inc_counter_rules [OF a b c d1, of "[0]" example_counter_store]
  show ?thesis
    by (auto simp: example_consts_def example_counter_store_def)
qed

subsection \<open>Properties of the ring queue: cursor arithmetic\<close>

lemma pow2_minus1_mask: "n < 32 \<Longrightarrow> (2 ^ n :: 32 word) - 1 = mask n"
  by (simp add: mask_eq_decr_exp)

lemma uint_and_pow2_mask:
  assumes "n < 32"
  shows "uint ((x :: 32 word) AND (2 ^ n - 1)) = uint x mod 2 ^ n"
proof -
  have "x AND (2 ^ n - 1) = take_bit n x"
    using assms by (simp only: pow2_minus1_mask take_bit_eq_mask)
  then have "uint (x AND (2 ^ n - 1)) = take_bit n (uint x)"
    by (simp only: unsigned_take_bit_eq)
  then show ?thesis
    by (simp only: take_bit_eq_mod)
qed

lemma mod32_mod: "n < 32 \<Longrightarrow> (x::int) mod 2 ^ 32 mod 2 ^ n = x mod 2 ^ n"
  by (rule mod_mod_cancel) (rule le_imp_power_dvd, simp)

lemma uint_of_int_and_mask:
  assumes "n < 32"
  shows "uint ((word_of_int k :: 32 word) AND (2 ^ n - 1)) = k mod 2 ^ n"
proof -
  have "uint (word_of_int k :: 32 word) = k mod 2 ^ 32"
    by (simp add: uint_word_of_int take_bit_eq_mod)
  then show ?thesis
    using assms by (simp only: uint_and_pow2_mask mod32_mod)
qed

lemma uint_free_slots:
  assumes "n < 32"
  shows "uint (((2 ^ n :: 32 word) + a - b) AND (2 ^ n - 1)) = (uint a - uint b) mod 2 ^ n"
proof -
  have "(2 ^ n :: 32 word) + a - b = word_of_int (2 ^ n + uint a - uint b)"
    by simp
  then have "uint (((2 ^ n :: 32 word) + a - b) AND (2 ^ n - 1)) = (2 ^ n + uint a - uint b) mod 2 ^ n"
    using assms by (simp only: uint_of_int_and_mask)
  also have "\<dots> = (uint a - uint b) mod 2 ^ n"
    by (simp only: add_diff_eq [symmetric] mod_add_self1)
  finally show ?thesis .
qed

lemma uint_diff_mask:
  assumes "n < 32"
  shows "uint (((a :: 32 word) - b) AND (2 ^ n - 1)) = (uint a - uint b) mod 2 ^ n"
proof -
  have "a - b = word_of_int (uint a - uint b)" by simp
  then show ?thesis using assms by (simp only: uint_of_int_and_mask)
qed

lemma uint_sum_mask:
  assumes "n < 32"
  shows "uint (((a :: 32 word) + b) AND (2 ^ n - 1)) = (uint a + uint b) mod 2 ^ n"
proof -
  have "a + b = word_of_int (uint a + uint b)" by simp
  then show ?thesis using assms by (simp only: uint_of_int_and_mask)
qed

lemma mod_one_iff_neg:
  fixes x m :: int
  assumes "2 \<le> m"
  shows "(x mod m = 1) = ((- x) mod m = m - 1)"
proof -
  have r: "0 \<le> x mod m" "x mod m < m" using assms by simp_all
  show ?thesis
    using assms r by (auto simp: zmod_zminus1_eq_if)
qed

lemma full_test_iff:
  assumes "n < 32"
  shows "((((2 ^ n :: 32 word) + (gb AND (2 ^ n - 1)) - (pb AND (2 ^ n - 1))) AND (2 ^ n - 1)) = 1)
         = ((uint gb - uint pb) mod 2 ^ n = 1)"
proof -
  have "uint (((2 ^ n :: 32 word) + (gb AND (2 ^ n - 1)) - (pb AND (2 ^ n - 1))) AND (2 ^ n - 1))
        = (uint (gb AND (2 ^ n - 1)) - uint (pb AND (2 ^ n - 1))) mod 2 ^ n"
    by (rule uint_free_slots [OF assms])
  also have "\<dots> = (uint gb mod 2 ^ n - uint pb mod 2 ^ n) mod 2 ^ n"
    by (simp only: uint_and_pow2_mask [OF assms])
  also have "\<dots> = (uint gb - uint pb) mod 2 ^ n"
    by (simp only: mod_diff_eq)
  finally have u: "uint (((2 ^ n :: 32 word) + (gb AND (2 ^ n - 1)) - (pb AND (2 ^ n - 1))) AND (2 ^ n - 1))
        = (uint gb - uint pb) mod 2 ^ n" .
  show ?thesis
    by (simp only: word_uint_eq_iff u uint_1)
qed

lemma stored_count_int:
  "queue_buffer_count q = 2 ^ n \<Longrightarrow> n < 32 \<Longrightarrow>
   int (stored_count q) = (uint (put_behind (control q)) - uint (get_behind (control q))) mod 2 ^ n"
  by (simp add: stored_count_def uint_diff_mask [symmetric])

lemma put_index_int:
  "queue_buffer_count q = 2 ^ n \<Longrightarrow> n < 32 \<Longrightarrow>
   int (put_index q) = uint (put_behind (control q)) mod 2 ^ n"
  by (simp add: put_index_def uint_and_pow2_mask [symmetric])

lemma full_iff_stored:
  assumes "queue_buffer_count q = 2 ^ n" "n < 32" "1 \<le> n"
  shows "((uint (get_behind (control q)) - uint (put_behind (control q))) mod 2 ^ n = 1)
       = (stored_count q = 2 ^ n - 1)"
proof -
  have "(2::int) ^ 1 \<le> 2 ^ n" using assms(3) by (rule power_increasing) simp
  then have m: "(2::int) \<le> 2 ^ n" by simp
  have "((uint (get_behind (control q)) - uint (put_behind (control q))) mod 2 ^ n = 1)
      = ((- (uint (get_behind (control q)) - uint (put_behind (control q)))) mod 2 ^ n = 2 ^ n - 1)"
    using m by (rule mod_one_iff_neg)
  also have "\<dots> = (int (stored_count q) = 2 ^ n - 1)"
    using assms by (simp add: stored_count_int)
  also have "\<dots> = (int (stored_count q) = int (2 ^ n - 1))"
    by (simp add: of_nat_diff)
  also have "\<dots> = (stored_count q = 2 ^ n - 1)"
    by (rule of_nat_eq_iff)
  finally show ?thesis .
qed

subsection \<open>Properties of the ring queue: one enqueue\<close>

lemma enqueue_event_full:
  assumes "queue_buffer_count q = 2 ^ n" "n < 32"
    and "(uint (get_behind (control q)) - uint (put_behind (control q))) mod 2 ^ n = 1"
  shows "enqueue_event e q = inc_dropped e q"
  using assms(1) assms(3) [folded full_test_iff [OF assms(2)]]
  by (simp add: enqueue_event_def Let_def)

lemma enqueue_event_not_full:
  assumes "queue_buffer_count q = 2 ^ n" "n < 32"
    and "(uint (get_behind (control q)) - uint (put_behind (control q))) mod 2 ^ n \<noteq> 1"
  shows "queue (enqueue_event e q) = (queue q)(put_index q := e)"
    and "dropped (control (enqueue_event e q)) = dropped (control q)"
    and "put_behind (control (enqueue_event e q)) = (put_behind (control q) AND (2 ^ n - 1)) + 1 AND (2 ^ n - 1)"
    and "put_ahead (control (enqueue_event e q)) = put_behind (control (enqueue_event e q))"
    and "get_behind (control (enqueue_event e q)) = get_behind (control q)"
    and "get_ahead (control (enqueue_event e q)) = get_ahead (control q)"
    and "queue_buffer_count (enqueue_event e q) = queue_buffer_count q"
    and "notification_threshold (enqueue_event e q) = notification_threshold q"
    and "subscribed_queues (enqueue_event e q) = subscribed_queues q"
  using assms(1) assms(3) [folded full_test_iff [OF assms(2)]]
  by (simp_all add: enqueue_event_def Let_def put_index_def)

lemma uint_next_put:
  assumes "n < 32"
  shows "uint (((pb :: 32 word) AND (2 ^ n - 1)) + 1 AND (2 ^ n - 1)) = (uint pb + 1) mod 2 ^ n"
proof -
  have "uint ((pb AND (2 ^ n - 1)) + 1 AND (2 ^ n - 1)) = (uint (pb AND (2 ^ n - 1)) + uint (1 :: 32 word)) mod 2 ^ n"
    by (rule uint_sum_mask [OF assms])
  also have "\<dots> = (uint pb mod 2 ^ n + 1) mod 2 ^ n"
    by (simp only: uint_and_pow2_mask [OF assms] uint_1)
  also have "\<dots> = (uint pb + 1) mod 2 ^ n"
    by (simp only: mod_add_left_eq)
  finally show ?thesis .
qed

lemma mod_succ_diff:
  fixes p g m :: int
  shows "((p + 1) mod m - g) mod m = ((p - g) mod m + 1) mod m"
proof -
  have "((p + 1) mod m - g) mod m = (p + 1 - g) mod m"
    by (rule mod_diff_left_eq)
  also have "p + 1 - g = (p - g) + 1" by simp
  also have "((p - g) + 1) mod m = ((p - g) mod m + 1) mod m"
    by (rule mod_add_left_eq [symmetric])
  finally show ?thesis .
qed

lemma put_index_lt:
  assumes "queue_buffer_count q = 2 ^ n" "n < 32"
  shows "put_index q < 2 ^ n"
proof -
  have "int (put_index q) < 2 ^ n"
    using assms by (simp add: put_index_int)
  then show ?thesis by (simp add: of_nat_less_iff [symmetric] del: of_nat_less_iff)
qed

lemma stored_count_lt:
  assumes "queue_buffer_count q = 2 ^ n" "n < 32"
  shows "stored_count q < 2 ^ n"
proof -
  have "int (stored_count q) < 2 ^ n"
    using assms by (simp add: stored_count_int)
  then show ?thesis by (simp add: of_nat_less_iff [symmetric] del: of_nat_less_iff)
qed

lemma enqueue_event_store:
  assumes c: "queue_buffer_count q = 2 ^ n" and n: "n < 32" and s: "Suc (stored_count q) < 2 ^ n"
  shows "queue (enqueue_event e q) = (queue q)(put_index q := e)"
    and "dropped (control (enqueue_event e q)) = dropped (control q)"
    and "get_behind (control (enqueue_event e q)) = get_behind (control q)"
    and "queue_buffer_count (enqueue_event e q) = queue_buffer_count q"
    and "stored_count (enqueue_event e q) = Suc (stored_count q)"
    and "put_index (enqueue_event e q) = Suc (put_index q) mod 2 ^ n"
proof -
  let ?g = "uint (get_behind (control q))" and ?p = "uint (put_behind (control q))"
  have n1: "1 \<le> n" using s by (cases n) simp_all
  have "stored_count q \<noteq> 2 ^ n - 1" using s by simp
  then have nf: "(?g - ?p) mod 2 ^ n \<noteq> 1"
    using full_iff_stored [OF c n n1] by simp
  note st = enqueue_event_not_full [OF c n nf, of e]
  show "queue (enqueue_event e q) = (queue q)(put_index q := e)" by (rule st)
  show "dropped (control (enqueue_event e q)) = dropped (control q)" by (rule st)
  show "get_behind (control (enqueue_event e q)) = get_behind (control q)" by (rule st)
  show c': "queue_buffer_count (enqueue_event e q) = queue_buffer_count q" by (rule st)
  have c'': "queue_buffer_count (enqueue_event e q) = 2 ^ n" using c c' by simp
  have pb: "uint (put_behind (control (enqueue_event e q))) = (?p + 1) mod 2 ^ n"
    by (simp only: st(3) uint_next_put [OF n])
  have "int (stored_count (enqueue_event e q)) = ((?p + 1) mod 2 ^ n - ?g) mod 2 ^ n"
    by (simp only: stored_count_int [OF c'' n] pb st(5))
  also have "\<dots> = ((?p - ?g) mod 2 ^ n + 1) mod 2 ^ n"
    by (rule mod_succ_diff)
  also have "\<dots> = (int (stored_count q) + 1) mod 2 ^ n"
    by (simp only: stored_count_int [OF c n])
  also have "\<dots> = int (stored_count q) + 1"
  proof -
    have "int (Suc (stored_count q)) < int (2 ^ n)" using s by (simp only: of_nat_less_iff)
    then show ?thesis by simp
  qed
  finally show "stored_count (enqueue_event e q) = Suc (stored_count q)" by simp
  have "int (put_index (enqueue_event e q)) = (?p + 1) mod 2 ^ n mod 2 ^ n"
    by (simp only: put_index_int [OF c'' n] pb)
  also have "\<dots> = (?p mod 2 ^ n + 1) mod 2 ^ n"
    by (simp add: mod_add_left_eq)
  also have "\<dots> = (int (put_index q) + 1) mod 2 ^ n"
    by (simp only: put_index_int [OF c n])
  also have "\<dots> = int (Suc (put_index q) mod 2 ^ n)"
    by (simp add: zmod_int add.commute)
  finally show "put_index (enqueue_event e q) = Suc (put_index q) mod 2 ^ n"
    by (simp only: of_nat_eq_iff)
qed

lemma enqueue_event_drop:
  assumes c: "queue_buffer_count q = 2 ^ n" and n: "n < 32" and n1: "1 \<le> n"
    and s: "Suc (stored_count q) = 2 ^ n"
  shows "enqueue_event e q = inc_dropped e q"
proof -
  have "stored_count q = 2 ^ n - 1" using s by simp
  then have "(uint (get_behind (control q)) - uint (put_behind (control q))) mod 2 ^ n = 1"
    using full_iff_stored [OF c n n1] by simp
  then show ?thesis by (rule enqueue_event_full [OF c n])
qed

lemma inc_dropped_simps:
  "queue (inc_dropped e q) = queue q"
  "queue_buffer_count (inc_dropped e q) = queue_buffer_count q"
  "stored_count (inc_dropped e q) = stored_count q"
  "put_index (inc_dropped e q) = put_index q"
  "get_behind (control (inc_dropped e q)) = get_behind (control q)"
  "put_behind (control (inc_dropped e q)) = put_behind (control q)"
  "put_ahead (control (inc_dropped e q)) = put_ahead (control q)"
  "get_ahead (control (inc_dropped e q)) = get_ahead (control q)"
  "wait_queue_flushes (inc_dropped e q) = wait_queue_flushes q"
  "is_wakeup_get_valid (inc_dropped e q) = is_wakeup_get_valid q"
  "wakeup_get (inc_dropped e q) = wakeup_get q"
  by (simp_all add: inc_dropped_def stored_count_def put_index_def)

subsection \<open>Properties of the ring queue: enqueues in a row\<close>

lemma enqueue_events_Cons: "enqueue_events (e # es) q = enqueue_events es (enqueue_event e q)"
  by (simp add: enqueue_events_def)

lemma enqueue_events_Nil: "enqueue_events [] q = q"
  by (simp add: enqueue_events_def)

lemma enqueue_events_append:
  "enqueue_events (xs @ ys) q = enqueue_events ys (enqueue_events xs q)"
  by (simp add: enqueue_events_def)

lemma enqueue_events_snoc:
  "enqueue_events (xs @ [e]) q = enqueue_event e (enqueue_events xs q)"
  by (simp add: enqueue_events_def)

lemma mod_add_neq:
  fixes p k m :: nat
  assumes "p < m" "0 < k" "k < m"
  shows "(p + k) mod m \<noteq> p"
proof (cases "p + k < m")
  case True
  then show ?thesis using assms by simp
next
  case False
  then have "(p + k) mod m = p + k - m" using assms by (simp add: mod_if)
  then show ?thesis using assms False by simp
qed

lemma mod_Suc_add: "(Suc p mod m + i) mod m = (p + Suc i) mod (m::nat)"
  by (simp add: mod_add_left_eq)

lemma enqueue_events_store_all:
  assumes "queue_buffer_count q = 2 ^ n" and "n < 32"
    and "stored_count q + length es < 2 ^ n"
  shows "stored_count (enqueue_events es q) = stored_count q + length es
    \<and> queue_buffer_count (enqueue_events es q) = 2 ^ n
    \<and> get_behind (control (enqueue_events es q)) = get_behind (control q)
    \<and> dropped (control (enqueue_events es q)) = dropped (control q)
    \<and> put_index (enqueue_events es q) = (put_index q + length es) mod 2 ^ n
    \<and> (\<forall>i<length es. queue (enqueue_events es q) ((put_index q + i) mod 2 ^ n) = es ! i)
    \<and> (\<forall>j. (\<forall>i<length es. j \<noteq> (put_index q + i) mod 2 ^ n)
           \<longrightarrow> queue (enqueue_events es q) j = queue q j)"
  using assms
proof (induction es arbitrary: q)
  case Nil
  then show ?case
    using put_index_lt [of q n] by (simp add: enqueue_events_Nil)
next
  case (Cons e es)
  let ?q1 = "enqueue_event e q"
  let ?m = "(2::nat) ^ n"
  have s: "Suc (stored_count q) < ?m" using Cons.prems(3) by simp
  note st = enqueue_event_store [OF Cons.prems(1,2) s, of e]
  have c1: "queue_buffer_count ?q1 = 2 ^ n" using st(4) Cons.prems(1) by simp
  have s1: "stored_count ?q1 + length es < ?m" using st(5) Cons.prems(3) by simp
  note ih = Cons.IH [OF c1 Cons.prems(2) s1]
  have pl: "put_index q < ?m" by (rule put_index_lt [OF Cons.prems(1,2)])
  have idx: "\<And>i. (put_index ?q1 + i) mod ?m = (put_index q + Suc i) mod ?m"
    by (simp only: st(6) mod_Suc_add)
  have len: "Suc (length es) < ?m" using Cons.prems(3) by simp
  have first: "queue (enqueue_events es ?q1) (put_index q) = e"
  proof -
    have "\<forall>i<length es. put_index q \<noteq> (put_index ?q1 + i) mod ?m"
    proof (intro allI impI)
      fix i assume "i < length es"
      then have "Suc i < ?m" using len by simp
      then have "(put_index q + Suc i) mod ?m \<noteq> put_index q"
        using pl by (intro mod_add_neq) simp_all
      then show "put_index q \<noteq> (put_index ?q1 + i) mod ?m"
        by (simp only: idx)
    qed
    with ih have "queue (enqueue_events es ?q1) (put_index q) = queue ?q1 (put_index q)"
      by blast
    then show ?thesis by (simp add: st(1))
  qed
  have stored: "\<forall>i<length (e # es). queue (enqueue_events (e # es) q) ((put_index q + i) mod ?m) = (e # es) ! i"
  proof (intro allI impI)
    fix i assume i: "i < length (e # es)"
    show "queue (enqueue_events (e # es) q) ((put_index q + i) mod ?m) = (e # es) ! i"
    proof (cases i)
      case 0
      then show ?thesis using first pl by (simp add: enqueue_events_Cons)
    next
      case (Suc i')
      then have "i' < length es" using i by simp
      with ih have "queue (enqueue_events es ?q1) ((put_index ?q1 + i') mod ?m) = es ! i'"
        by blast
      then show ?thesis using Suc by (simp only: idx enqueue_events_Cons nth_Cons_Suc)
    qed
  qed
  have frame: "\<forall>j. (\<forall>i<length (e # es). j \<noteq> (put_index q + i) mod ?m)
           \<longrightarrow> queue (enqueue_events (e # es) q) j = queue q j"
  proof (intro allI impI)
    fix j assume j: "\<forall>i<length (e # es). j \<noteq> (put_index q + i) mod ?m"
    from j have j0: "j \<noteq> put_index q" using pl by (auto dest: spec [of _ 0])
    have "\<forall>i<length es. j \<noteq> (put_index ?q1 + i) mod ?m"
    proof (intro allI impI)
      fix i assume "i < length es"
      then have "Suc i < length (e # es)" by simp
      with j have "j \<noteq> (put_index q + Suc i) mod ?m" by blast
      then show "j \<noteq> (put_index ?q1 + i) mod ?m" by (simp add: idx)
    qed
    with ih have "queue (enqueue_events es ?q1) j = queue ?q1 j" by blast
    then show "queue (enqueue_events (e # es) q) j = queue q j"
      using j0 by (simp add: enqueue_events_Cons st(1))
  qed
  have pidx: "put_index (enqueue_events (e # es) q) = (put_index q + length (e # es)) mod ?m"
  proof -
    from ih have "put_index (enqueue_events es ?q1) = (put_index ?q1 + length es) mod ?m" by blast
    then show ?thesis by (simp only: idx enqueue_events_Cons length_Cons)
  qed
  from ih st stored frame pidx show ?case
    by (simp only: enqueue_events_Cons length_Cons) simp
qed

lemma enqueue_event_capacity: "queue_buffer_count (enqueue_event e q) = queue_buffer_count q"
  by (simp add: enqueue_event_def Let_def inc_dropped_def)

lemma enqueue_events_capacity: "queue_buffer_count (enqueue_events es q) = queue_buffer_count q"
  by (induction es arbitrary: q) (simp_all add: enqueue_events_Nil enqueue_events_Cons enqueue_event_capacity)

lemma fold_inc_dropped_simps:
  "queue (fold inc_dropped es q) = queue q"
  "queue_buffer_count (fold inc_dropped es q) = queue_buffer_count q"
  "stored_count (fold inc_dropped es q) = stored_count q"
  "put_index (fold inc_dropped es q) = put_index q"
  by (induction es arbitrary: q) (simp_all add: inc_dropped_simps)

lemma enqueue_events_drop_all:
  assumes "queue_buffer_count q = 2 ^ n" and "n < 32" and "1 \<le> n"
    and "Suc (stored_count q) = 2 ^ n"
  shows "enqueue_events es q = fold inc_dropped es q"
  using assms
proof (induction es arbitrary: q)
  case Nil
  then show ?case by (simp add: enqueue_events_Nil)
next
  case (Cons e es)
  have d: "enqueue_event e q = inc_dropped e q"
    by (rule enqueue_event_drop [OF Cons.prems])
  have "enqueue_events es (inc_dropped e q) = fold inc_dropped es (inc_dropped e q)"
    using Cons.prems by (intro Cons.IH) (simp_all add: inc_dropped_simps)
  then show ?case by (simp add: enqueue_events_Cons d)
qed

lemma enqueue_events_split:
  assumes c: "queue_buffer_count q = 2 ^ n" and n: "n < 32" and n1: "1 \<le> n"
  shows "enqueue_events es q =
         fold inc_dropped (drop (2 ^ n - 1 - stored_count q) es)
           (enqueue_events (take (2 ^ n - 1 - stored_count q) es) q)"
proof -
  let ?a = "2 ^ n - 1 - stored_count q"
  let ?q1 = "enqueue_events (take ?a es) q"
  have sl: "stored_count q < 2 ^ n" by (rule stored_count_lt [OF c n])
  have fit: "stored_count q + length (take ?a es) < 2 ^ n" using sl by simp
  note st = enqueue_events_store_all [OF c n fit]
  have "enqueue_events es q = enqueue_events (drop ?a es) ?q1"
    by (simp only: enqueue_events_append [symmetric] append_take_drop_id)
  also have "\<dots> = fold inc_dropped (drop ?a es) ?q1"
  proof (cases "?a \<le> length es")
    case True
    then have "Suc (stored_count ?q1) = 2 ^ n" using st sl by simp
    then show ?thesis using st n n1 by (intro enqueue_events_drop_all) simp_all
  next
    case False
    then show ?thesis by (simp add: enqueue_events_Nil)
  qed
  finally show ?thesis .
qed

lemma enqueue_events_stored_count:
  assumes c: "queue_buffer_count q = 2 ^ n" and n: "n < 32" and n1: "1 \<le> n"
  shows "stored_count (enqueue_events es q) = min (stored_count q + length es) (2 ^ n - 1)"
proof -
  let ?a = "2 ^ n - 1 - stored_count q"
  have sl: "stored_count q < 2 ^ n" by (rule stored_count_lt [OF c n])
  have fit: "stored_count q + length (take ?a es) < 2 ^ n" using sl by simp
  note st = enqueue_events_store_all [OF c n fit]
  have "stored_count (enqueue_events es q) = stored_count q + length (take ?a es)"
    using st by (simp only: enqueue_events_split [OF c n n1, of es] fold_inc_dropped_simps)
  then have "stored_count (enqueue_events es q) = stored_count q + min (length es) ?a"
    by (simp only: length_take)
  then show ?thesis using sl by arith
qed

lemma enqueue_events_beyond:
  assumes c: "queue_buffer_count q = 2 ^ n" and n: "n < 32" and n1: "1 \<le> n"
    and i: "i < length es" and b: "2 ^ n - 1 \<le> stored_count q + i"
  shows "enqueue_events (take (Suc i) es) q = inc_dropped (es ! i) (enqueue_events (take i es) q)"
proof -
  let ?qi = "enqueue_events (take i es) q"
  have "stored_count ?qi = min (stored_count q + length (take i es)) (2 ^ n - 1)"
    by (rule enqueue_events_stored_count [OF c n n1])
  then have s: "Suc (stored_count ?qi) = 2 ^ n" using i b by simp
  have ci: "queue_buffer_count ?qi = 2 ^ n" using c by (simp add: enqueue_events_capacity)
  have "enqueue_events (take (Suc i) es) q = enqueue_event (es ! i) ?qi"
    using i by (simp only: take_Suc_conv_app_nth enqueue_events_snoc)
  also have "\<dots> = inc_dropped (es ! i) ?qi"
    by (rule enqueue_event_drop [OF ci n n1 s])
  finally show ?thesis .
qed

lemma enqueue_events_slots:
  assumes c: "queue_buffer_count q = 2 ^ n" and n: "n < 32" and n1: "1 \<le> n"
  shows "\<forall>i<length es. stored_count q + i < 2 ^ n - 1 \<longrightarrow>
           queue (enqueue_events es q) ((put_index q + i) mod 2 ^ n) = es ! i"
    and "\<forall>j. (\<forall>i<length es. stored_count q + i < 2 ^ n - 1 \<longrightarrow> j \<noteq> (put_index q + i) mod 2 ^ n)
           \<longrightarrow> queue (enqueue_events es q) j = queue q j"
proof -
  let ?a = "2 ^ n - 1 - stored_count q"
  have sl: "stored_count q < 2 ^ n" by (rule stored_count_lt [OF c n])
  have fit: "stored_count q + length (take ?a es) < 2 ^ n" using sl by simp
  note st = enqueue_events_store_all [OF c n fit]
  have q: "queue (enqueue_events es q) = queue (enqueue_events (take ?a es) q)"
    by (simp only: enqueue_events_split [OF c n n1, of es] fold_inc_dropped_simps)
  show "\<forall>i<length es. stored_count q + i < 2 ^ n - 1 \<longrightarrow>
           queue (enqueue_events es q) ((put_index q + i) mod 2 ^ n) = es ! i"
  proof (intro allI impI)
    fix i assume i: "i < length es" "stored_count q + i < 2 ^ n - 1"
    then have "i < length (take ?a es)" by simp
    with st have "queue (enqueue_events (take ?a es) q) ((put_index q + i) mod 2 ^ n) = take ?a es ! i"
      by blast
    then show "queue (enqueue_events es q) ((put_index q + i) mod 2 ^ n) = es ! i"
      using i by (simp add: q)
  qed
  show "\<forall>j. (\<forall>i<length es. stored_count q + i < 2 ^ n - 1 \<longrightarrow> j \<noteq> (put_index q + i) mod 2 ^ n)
           \<longrightarrow> queue (enqueue_events es q) j = queue q j"
  proof (intro allI impI)
    fix j assume j: "\<forall>i<length es. stored_count q + i < 2 ^ n - 1 \<longrightarrow> j \<noteq> (put_index q + i) mod 2 ^ n"
    have "\<forall>i<length (take ?a es). j \<noteq> (put_index q + i) mod 2 ^ n"
    proof (intro allI impI)
      fix i assume "i < length (take ?a es)"
      then have "i < length es \<and> i < ?a" by simp
      then have "i < length es" "stored_count q + i < 2 ^ n - 1" by arith+
      with j show "j \<noteq> (put_index q + i) mod 2 ^ n" by blast
    qed
    with st have "queue (enqueue_events (take ?a es) q) j = queue q j" by blast
    then show "queue (enqueue_events es q) j = queue q j" by (simp add: q)
  qed
qed

lemma get_index_int:
  "queue_buffer_count q = 2 ^ n \<Longrightarrow> n < 32 \<Longrightarrow>
   int (get_index q) = uint (get_behind (control q)) mod 2 ^ n"
  by (simp add: get_index_def uint_and_pow2_mask [symmetric])

lemma put_index_get_index:
  assumes c: "queue_buffer_count q = 2 ^ n" and n: "n < 32"
  shows "put_index q = (get_index q + stored_count q) mod 2 ^ n"
proof -
  let ?g = "uint (get_behind (control q))" and ?p = "uint (put_behind (control q))"
  have "int ((get_index q + stored_count q) mod 2 ^ n) = (?g mod 2 ^ n + (?p - ?g) mod 2 ^ n) mod 2 ^ n"
    by (simp add: zmod_int get_index_int [OF c n] stored_count_int [OF c n])
  also have "\<dots> = (?g + (?p - ?g)) mod 2 ^ n"
    by (rule mod_add_eq)
  also have "\<dots> = int (put_index q)"
    by (simp add: put_index_int [OF c n])
  finally show ?thesis by (simp only: of_nat_eq_iff)
qed

lemma occupied_not_written:
  fixes g s k i m :: nat
  assumes "k < s" "s + i < m"
  shows "(g + k) mod m \<noteq> ((g + s) mod m + i) mod m"
proof -
  have m: "0 < m" using assms by simp
  have "((g + s) mod m + i) mod m = (g + s + i) mod m" by (rule mod_add_left_eq)
  also have "g + s + i = (g + k) + (s + i - k)" using assms by simp
  also have "((g + k) + (s + i - k)) mod m = ((g + k) mod m + (s + i - k)) mod m"
    by (rule mod_add_left_eq [symmetric])
  finally have e: "((g + s) mod m + i) mod m = ((g + k) mod m + (s + i - k)) mod m" .
  have "((g + k) mod m + (s + i - k)) mod m \<noteq> (g + k) mod m"
    using assms m by (intro mod_add_neq) simp_all
  then show ?thesis by (simp only: e)
qed

lemma enqueue_events_keeps_stored:
  assumes c: "queue_buffer_count q = 2 ^ n" and n: "n < 32" and n1: "1 \<le> n"
    and k: "k < stored_count q"
  shows "queue (enqueue_events es q) ((get_index q + k) mod 2 ^ n) = queue q ((get_index q + k) mod 2 ^ n)"
proof -
  have "\<forall>i<length es. stored_count q + i < 2 ^ n - 1 \<longrightarrow>
          (get_index q + k) mod 2 ^ n \<noteq> (put_index q + i) mod 2 ^ n"
  proof (intro allI impI)
    fix i assume "i < length es" and "stored_count q + i < 2 ^ n - 1"
    then have "stored_count q + i < 2 ^ n" by simp
    with k show "(get_index q + k) mod 2 ^ n \<noteq> (put_index q + i) mod 2 ^ n"
      unfolding put_index_get_index [OF c n] by (rule occupied_not_written)
  qed
  with enqueue_events_slots(2) [OF c n n1, of es] show ?thesis by blast
qed

subsection \<open>The ring queue when it is full\<close>

text \<open>
  A queue of capacity 1 (the power of two \<open>2 ^ 0\<close>) never detects that it is full: the
  mask is 0, so the free-slot count is 0 and never 1. Every enqueue stores into slot 0,
  over the record stored before, and no drop is counted.
\<close>

theorem enqueue_capacity_one_counterexample:
  "queue_buffer_count example_queue1 = 2 ^ 0
   \<and> queue (enqueue_event (example_entry 1) example_queue1) 0 = example_entry 1
   \<and> queue (enqueue_events [example_entry 1, example_entry 2] example_queue1) 0 = example_entry 2
   \<and> dropped (control (enqueue_events [example_entry 1, example_entry 2] example_queue1)) 2 = 0"
  by (simp add: enqueue_events_def enqueue_event_def example_queue1_def example_entry_def
      queue_needs_wakeup_def Let_def)

text \<open>
  C1. For a ring queue whose capacity \<open>C\<close> is a power of two and every enqueue: if the
  free-slot count \<open>(C + get_behind - put_behind) mod C\<close> is 1, the enqueue increments the
  drop counter of the entry's event type and changes nothing else (no record is written,
  no cursor moves); otherwise the record is copied into the slot \<open>put_behind mod C\<close> and no
  drop counter changes. When moreover \<open>C\<close> is at least 2: after \<open>N\<close> enqueues with the
  consumer writing nothing, the number of stored records is \<open>min (s + N) (C - 1)\<close>, where
  \<open>s\<close> records were stored before, so at most \<open>C - 1\<close>; every enqueue that finds
  \<open>C - 1\<close> records stored (in particular every enqueue beyond the \<open>(C - 1)\<close>-th) only
  increments the drop counter of its event type; the records that fit are in consecutive
  slots from the old put cursor on, every other slot is as before, and the \<open>s\<close> records
  stored before are still in their slots.
\<close>

theorem enqueue_ring_full:
  assumes c: "queue_buffer_count q = 2 ^ n" and n: "n < 32"
  shows "((2 ^ n + uint (get_behind (control q)) - uint (put_behind (control q))) mod 2 ^ n = 1 \<longrightarrow>
            enqueue_event e q =
              q\<lparr>control := (control q)\<lparr>dropped :=
                   (dropped (control q))(unat (eventType e) :=
                      dropped (control q) (unat (eventType e)) + 1)\<rparr>\<rparr>)
    \<and> ((2 ^ n + uint (get_behind (control q)) - uint (put_behind (control q))) mod 2 ^ n \<noteq> 1 \<longrightarrow>
            queue (enqueue_event e q) = (queue q)(put_index q := e)
          \<and> dropped (control (enqueue_event e q)) = dropped (control q))
    \<and> (1 \<le> n \<longrightarrow>
            stored_count (enqueue_events es q) = min (stored_count q + length es) (2 ^ n - 1)
          \<and> (\<forall>i<length es. 2 ^ n - 1 \<le> stored_count q + i \<longrightarrow>
                enqueue_events (take (Suc i) es) q
                  = inc_dropped (es ! i) (enqueue_events (take i es) q))
          \<and> (\<forall>i<length es. stored_count q + i < 2 ^ n - 1 \<longrightarrow>
                queue (enqueue_events es q) ((put_index q + i) mod 2 ^ n) = es ! i)
          \<and> (\<forall>j. (\<forall>i<length es. stored_count q + i < 2 ^ n - 1 \<longrightarrow>
                      j \<noteq> (put_index q + i) mod 2 ^ n)
                \<longrightarrow> queue (enqueue_events es q) j = queue q j)
          \<and> (\<forall>k < stored_count q.
                queue (enqueue_events es q) ((get_index q + k) mod 2 ^ n)
                  = queue q ((get_index q + k) mod 2 ^ n)))"
proof -
  let ?g = "uint (get_behind (control q))" and ?p = "uint (put_behind (control q))"
  have f: "(2 ^ n + ?g - ?p) mod 2 ^ n = (?g - ?p) mod 2 ^ n"
    by (simp only: add_diff_eq [symmetric] mod_add_self1)
  have full: "(2 ^ n + ?g - ?p) mod 2 ^ n = 1 \<longrightarrow>
            enqueue_event e q =
              q\<lparr>control := (control q)\<lparr>dropped :=
                   (dropped (control q))(unat (eventType e) :=
                      dropped (control q) (unat (eventType e)) + 1)\<rparr>\<rparr>"
    unfolding f using enqueue_event_full [OF c n, of e] by (simp add: inc_dropped_def)
  have store: "(2 ^ n + ?g - ?p) mod 2 ^ n \<noteq> 1 \<longrightarrow>
            queue (enqueue_event e q) = (queue q)(put_index q := e)
          \<and> dropped (control (enqueue_event e q)) = dropped (control q)"
    unfolding f using enqueue_event_not_full(1,2) [OF c n, of e] by simp
  have seq: "1 \<le> n \<longrightarrow>
            stored_count (enqueue_events es q) = min (stored_count q + length es) (2 ^ n - 1)
          \<and> (\<forall>i<length es. 2 ^ n - 1 \<le> stored_count q + i \<longrightarrow>
                enqueue_events (take (Suc i) es) q
                  = inc_dropped (es ! i) (enqueue_events (take i es) q))
          \<and> (\<forall>i<length es. stored_count q + i < 2 ^ n - 1 \<longrightarrow>
                queue (enqueue_events es q) ((put_index q + i) mod 2 ^ n) = es ! i)
          \<and> (\<forall>j. (\<forall>i<length es. stored_count q + i < 2 ^ n - 1 \<longrightarrow>
                      j \<noteq> (put_index q + i) mod 2 ^ n)
                \<longrightarrow> queue (enqueue_events es q) j = queue q j)
          \<and> (\<forall>k < stored_count q.
                queue (enqueue_events es q) ((get_index q + k) mod 2 ^ n)
                  = queue q ((get_index q + k) mod 2 ^ n))"
  proof
    assume n1: "1 \<le> n"
    show "stored_count (enqueue_events es q) = min (stored_count q + length es) (2 ^ n - 1)
          \<and> (\<forall>i<length es. 2 ^ n - 1 \<le> stored_count q + i \<longrightarrow>
                enqueue_events (take (Suc i) es) q
                  = inc_dropped (es ! i) (enqueue_events (take i es) q))
          \<and> (\<forall>i<length es. stored_count q + i < 2 ^ n - 1 \<longrightarrow>
                queue (enqueue_events es q) ((put_index q + i) mod 2 ^ n) = es ! i)
          \<and> (\<forall>j. (\<forall>i<length es. stored_count q + i < 2 ^ n - 1 \<longrightarrow>
                      j \<noteq> (put_index q + i) mod 2 ^ n)
                \<longrightarrow> queue (enqueue_events es q) j = queue q j)
          \<and> (\<forall>k < stored_count q.
                queue (enqueue_events es q) ((get_index q + k) mod 2 ^ n)
                  = queue q ((get_index q + k) mod 2 ^ n))"
      using enqueue_events_stored_count [OF c n n1, of es]
        enqueue_events_beyond [OF c n n1, of _ es]
        enqueue_events_slots [OF c n n1, of es]
        enqueue_events_keeps_stored [OF c n n1, of _ es]
      by (intro conjI allI impI) blast+
  qed
  from full store seq show ?thesis by (intro conjI)
qed

text \<open>The capacity-4 queue: three records are stored, the fourth and fifth are dropped.\<close>

theorem enqueue_ring_full_witness:
  "stored_count (enqueue_events [example_entry 1, example_entry 2, example_entry 3] example_queue) = 3
   \<and> stored_count (enqueue_events [example_entry 1, example_entry 2, example_entry 3, example_entry 4,
        example_entry 5] example_queue) = 3
   \<and> enqueue_events [example_entry 1, example_entry 2, example_entry 3, example_entry 4] example_queue
       = inc_dropped (example_entry 4)
           (enqueue_events [example_entry 1, example_entry 2, example_entry 3] example_queue)
   \<and> queue (enqueue_events [example_entry 1, example_entry 2, example_entry 3, example_entry 4]
        example_queue) 2 = example_entry 3"
proof -
  have c: "queue_buffer_count example_queue = 2 ^ 2" by (simp add: example_queue_def)
  have s: "stored_count example_queue = 0" "put_index example_queue = 0"
    by (simp_all add: stored_count_def put_index_def example_queue_def)
  have n: "(2::nat) < 32" by simp
  from enqueue_ring_full [OF c n, of "example_entry 1"
        "[example_entry 1, example_entry 2, example_entry 3]"]
  have a: "stored_count (enqueue_events [example_entry 1, example_entry 2, example_entry 3] example_queue) = 3"
    by (simp add: s)
  from enqueue_ring_full [OF c n, of "example_entry 1"
        "[example_entry 1, example_entry 2, example_entry 3, example_entry 4, example_entry 5]"]
  have b: "stored_count (enqueue_events [example_entry 1, example_entry 2, example_entry 3, example_entry 4,
        example_entry 5] example_queue) = 3"
    by (simp add: s)
  from enqueue_ring_full [OF c n, of "example_entry 1"
        "[example_entry 1, example_entry 2, example_entry 3, example_entry 4]"]
  have d: "(\<forall>i<4. 3 \<le> i \<longrightarrow>
             enqueue_events (take (Suc i) [example_entry 1, example_entry 2, example_entry 3, example_entry 4]) example_queue
               = inc_dropped ([example_entry 1, example_entry 2, example_entry 3, example_entry 4] ! i)
                  (enqueue_events (take i [example_entry 1, example_entry 2, example_entry 3, example_entry 4]) example_queue))"
    and e: "(\<forall>i<4. i < 3 \<longrightarrow>
                queue (enqueue_events [example_entry 1, example_entry 2, example_entry 3, example_entry 4] example_queue) (i mod 4)
                 = [example_entry 1, example_entry 2, example_entry 3, example_entry 4] ! i)"
    by (simp_all add: s)
  from d [rule_format, of 3] e [rule_format, of 2] a b show ?thesis by simp
qed

subsection \<open>The ring queue and the cursors the consumer writes\<close>

lemma and_mask_lt:
  assumes "(c :: 32 word) \<noteq> 0"
  shows "unat (x AND (c - 1)) < unat c"
proof -
  have "unat (x AND (c - 1)) \<le> unat (c - 1)"
    by (rule word_and_le1 [THEN word_le_nat_alt [THEN iffD1]])
  moreover have "unat (c - 1) < unat c"
    using assms by (simp add: unat_minus_one unat_gt_0)
  ultimately show ?thesis by simp
qed

lemma enqueue_event_only_put_slot:
  "j \<noteq> put_index q \<Longrightarrow> queue (enqueue_event e q) j = queue q j"
  by (simp add: enqueue_event_def Let_def inc_dropped_def put_index_def)

lemma needs_wakeup_masked:
  assumes c: "queue_buffer_count q = 2 ^ n" and n: "n < 32"
  shows "queue_needs_wakeup q sn
       = queue_needs_wakeup q (sn\<lparr>sn_get_ahead := sn_get_ahead sn AND (2 ^ n - 1)\<rparr>)"
proof -
  let ?pb = "sn_put_behind sn" and ?ga = "sn_get_ahead sn"
  have "uint (((2 ^ n :: 32 word) + ?pb - (?ga AND (2 ^ n - 1))) AND (2 ^ n - 1))
      = (uint ?pb - uint (?ga AND (2 ^ n - 1))) mod 2 ^ n"
    by (rule uint_free_slots [OF n])
  also have "\<dots> = (uint ?pb - uint ?ga mod 2 ^ n) mod 2 ^ n"
    by (simp only: uint_and_pow2_mask [OF n])
  also have "\<dots> = (uint ?pb - uint ?ga) mod 2 ^ n"
    by (rule mod_diff_right_eq)
  also have "\<dots> = uint (((2 ^ n :: 32 word) + ?pb - ?ga) AND (2 ^ n - 1))"
    by (rule uint_free_slots [OF n, symmetric])
  finally have "uint (((2 ^ n :: 32 word) + ?pb - ?ga) AND (2 ^ n - 1))
      = uint (((2 ^ n :: 32 word) + ?pb - (?ga AND (2 ^ n - 1))) AND (2 ^ n - 1))"
    by (rule sym)
  then have "((2 ^ n :: 32 word) + ?pb - ?ga) AND (2 ^ n - 1)
      = ((2 ^ n :: 32 word) + ?pb - (?ga AND (2 ^ n - 1))) AND (2 ^ n - 1)"
    by (simp only: word_uint_eq_iff)
  then show ?thesis
    by (simp add: queue_needs_wakeup_def c)
qed

lemma enqueue_event_mask_cursors:
  "queue (enqueue_event e (mask_cursors q)) = queue (enqueue_event e q)
   \<and> dropped (control (enqueue_event e (mask_cursors q))) = dropped (control (enqueue_event e q))
   \<and> put_ahead (control (enqueue_event e (mask_cursors q))) = put_ahead (control (enqueue_event e q))
   \<and> wait_queue_flushes (enqueue_event e (mask_cursors q)) = wait_queue_flushes (enqueue_event e q)
   \<and> is_wakeup_get_valid (enqueue_event e (mask_cursors q)) = is_wakeup_get_valid (enqueue_event e q)
   \<and> wakeup_get (enqueue_event e (mask_cursors q)) = wakeup_get (enqueue_event e q)"
  by (auto simp: enqueue_event_def mask_cursors_def Let_def inc_dropped_def queue_needs_wakeup_def
      word_bw_assocs)

lemma pow2_ne0: "n < 32 \<Longrightarrow> (2 ^ n :: 32 word) \<noteq> 0"
  by simp
lemma unat_pow2:
  assumes "n < 32" shows "unat (2 ^ n :: 32 word) = 2 ^ n"
proof -
  have "0 < (2 ^ n :: 32 word)" using assms by (simp add: word_gt_0)
  then have "uint (2 ^ n :: 32 word) = 2 ^ n" by (rule uint_2p)
  then have "int (unat (2 ^ n :: 32 word)) = int (2 ^ n)" by simp
  then show ?thesis by (simp only: of_nat_eq_iff)
qed

lemma enqueue_event_published:
  assumes c: "queue_buffer_count q = 2 ^ n" and n: "n < 32"
    and nf: "(uint (get_behind (control q)) - uint (put_behind (control q))) mod 2 ^ n \<noteq> 1"
  shows "unat (put_behind (control (enqueue_event e q))) < 2 ^ n"
proof -
  have "unat (put_behind (control (enqueue_event e q))) < unat (2 ^ n :: 32 word)"
    using n unfolding enqueue_event_not_full(3) [OF c n nf] by (intro and_mask_lt) simp
  then show ?thesis using n by (simp add: unat_pow2)
qed

text \<open>
  The get-ahead cursor is read from the control block as it is. With capacity 4, the
  get-ahead values 3 and 7 have the same masked value, yet after a wakeup signaled for 3
  an enqueue signals again when the consumer wrote 7 and not when it wrote 3, and the
  value recorded as last signaled is 7, outside the index range.
\<close>

theorem get_ahead_unmasked_counterexample:
  "queue_buffer_count (example_queue_ga 7) = 4
   \<and> get_ahead (control (example_queue_ga 7)) AND (queue_buffer_count (example_queue_ga 7) - 1)
       = get_ahead (control (example_queue_ga 3)) AND (queue_buffer_count (example_queue_ga 3) - 1)
   \<and> wait_queue_flushes (enqueue_event (example_entry 1) (example_queue_ga 3)) = 0
   \<and> wait_queue_flushes (enqueue_event (example_entry 1) (example_queue_ga 7)) = 1
   \<and> wakeup_get (enqueue_event (example_entry 1) (example_queue_ga 7)) = 7
   \<and> \<not> wakeup_get (enqueue_event (example_entry 1) (example_queue_ga 7))
         < queue_buffer_count (example_queue_ga 7)"
  by (simp add: enqueue_event_def example_queue_ga_def example_queue_def example_entry_def
      queue_needs_wakeup_def Let_def)

text \<open>
  C5. For every enqueue on a queue whose capacity is a power of two: the cursors
  \<open>get_behind\<close> and \<open>put_behind\<close> read from the control block are masked into
  \<open>[0, capacity)\<close> before any use, so the enqueue depends on them through their masked
  values only; the one slot an enqueue can write is the masked \<open>put_behind\<close>, which is
  below the capacity, so no memory outside the buffer is written whatever the consumer
  wrote; the cursors published after a store are below the capacity. The cursor
  \<open>get_ahead\<close> is read unmasked: it is never an index, it enters the unread count, whose
  result is masked and equals the count for the masked \<open>get_ahead\<close>, and it is compared
  with and recorded as the last signaled value.
\<close>

theorem enqueue_cursor_masking:
  assumes c: "queue_buffer_count q = 2 ^ n" and n: "n < 32"
  shows "get_index q < unat (queue_buffer_count q)
    \<and> put_index q < unat (queue_buffer_count q)
    \<and> (\<forall>j. j \<noteq> put_index q \<longrightarrow> queue (enqueue_event e q) j = queue q j)
    \<and> (\<forall>j. unat (queue_buffer_count q) \<le> j \<longrightarrow> queue (enqueue_event e q) j = queue q j)
    \<and> ((2 ^ n + uint (get_behind (control q)) - uint (put_behind (control q))) mod 2 ^ n \<noteq> 1 \<longrightarrow>
          unat (put_behind (control (enqueue_event e q))) < unat (queue_buffer_count q)
        \<and> put_ahead (control (enqueue_event e q)) = put_behind (control (enqueue_event e q)))
    \<and> queue (enqueue_event e (mask_cursors q)) = queue (enqueue_event e q)
    \<and> dropped (control (enqueue_event e (mask_cursors q))) = dropped (control (enqueue_event e q))
    \<and> put_ahead (control (enqueue_event e (mask_cursors q))) = put_ahead (control (enqueue_event e q))
    \<and> wait_queue_flushes (enqueue_event e (mask_cursors q)) = wait_queue_flushes (enqueue_event e q)
    \<and> is_wakeup_get_valid (enqueue_event e (mask_cursors q)) = is_wakeup_get_valid (enqueue_event e q)
    \<and> wakeup_get (enqueue_event e (mask_cursors q)) = wakeup_get (enqueue_event e q)
    \<and> (\<forall>sn. queue_needs_wakeup q sn
           = queue_needs_wakeup q (sn\<lparr>sn_get_ahead := sn_get_ahead sn AND (queue_buffer_count q - 1)\<rparr>))"
proof -
  let ?g = "uint (get_behind (control q))" and ?p = "uint (put_behind (control q))"
  have ne: "queue_buffer_count q \<noteq> 0" using c n by simp
  have u: "unat (queue_buffer_count q) = 2 ^ n" using c n by (simp add: unat_pow2)
  have f: "(2 ^ n + ?g - ?p) mod 2 ^ n = (?g - ?p) mod 2 ^ n"
    by (simp only: add_diff_eq [symmetric] mod_add_self1)
  have gi: "get_index q < unat (queue_buffer_count q)"
    unfolding get_index_def by (rule and_mask_lt [OF ne])
  have pi: "put_index q < unat (queue_buffer_count q)"
    unfolding put_index_def by (rule and_mask_lt [OF ne])
  have only: "\<forall>j. j \<noteq> put_index q \<longrightarrow> queue (enqueue_event e q) j = queue q j"
    by (simp add: enqueue_event_only_put_slot)
  have outside: "\<forall>j. unat (queue_buffer_count q) \<le> j \<longrightarrow> queue (enqueue_event e q) j = queue q j"
    using pi by (auto intro: enqueue_event_only_put_slot)
  have pub: "(2 ^ n + ?g - ?p) mod 2 ^ n \<noteq> 1 \<longrightarrow>
          unat (put_behind (control (enqueue_event e q))) < unat (queue_buffer_count q)
        \<and> put_ahead (control (enqueue_event e q)) = put_behind (control (enqueue_event e q))"
    unfolding f u
    using enqueue_event_published [OF c n, of e] enqueue_event_not_full(4) [OF c n, of e]
    by blast
  have wk: "\<forall>sn. queue_needs_wakeup q sn
           = queue_needs_wakeup q (sn\<lparr>sn_get_ahead := sn_get_ahead sn AND (queue_buffer_count q - 1)\<rparr>)"
    unfolding c using needs_wakeup_masked [OF c n] by blast
  from gi pi only outside pub wk enqueue_event_mask_cursors [of e q] show ?thesis
    by (intro conjI) blast+
qed

text \<open>The capacity-4 queue with cursors far out of range: the record goes to slot 3.\<close>

theorem enqueue_cursor_masking_witness:
  "put_index example_queue_wild = 3
   \<and> queue (enqueue_event (example_entry 1) example_queue_wild) 3 = example_entry 1
   \<and> queue (enqueue_event (example_entry 1) example_queue_wild) 7 = queue example_queue_wild 7
   \<and> unat (put_behind (control (enqueue_event (example_entry 1) example_queue_wild))) < 4"
proof -
  have c: "queue_buffer_count example_queue_wild = 2 ^ 2"
    by (simp add: example_queue_wild_def example_queue_def)
  have n: "(2::nat) < 32" by simp
  have p: "put_index example_queue_wild = 3"
    by (simp add: put_index_def example_queue_wild_def example_queue_def)
  have s: "queue (enqueue_event (example_entry 1) example_queue_wild) 3 = example_entry 1"
    by (simp add: enqueue_event_def example_queue_wild_def example_queue_def example_entry_def
        queue_needs_wakeup_def Let_def)
  have d: "(7::nat) \<noteq> put_index example_queue_wild" unfolding p by simp
  from enqueue_cursor_masking [OF c n, of "example_entry 1"] p s d show ?thesis
    by (simp add: example_queue_wild_def example_queue_def)
qed

subsection \<open>The ring queue and the wakeup of the consumer\<close>

lemma enqueue_event_wakeup_raw:
  assumes c: "queue_buffer_count q = 2 ^ n" and n: "n < 32"
    and nf: "(uint (get_behind (control q)) - uint (put_behind (control q))) mod 2 ^ n \<noteq> 1"
  shows "wait_queue_flushes (enqueue_event e q) =
          (if notification_threshold q
                \<le> ((2 ^ n + ((put_behind (control q) AND (2 ^ n - 1)) + 1 AND (2 ^ n - 1))
                     - get_ahead (control q)) AND (2 ^ n - 1))
              \<and> \<not> (is_wakeup_get_valid q \<and> wakeup_get q = get_ahead (control q))
           then Suc (wait_queue_flushes q) else wait_queue_flushes q)"
    and "is_wakeup_get_valid (enqueue_event e q) =
          (if notification_threshold q
                \<le> ((2 ^ n + ((put_behind (control q) AND (2 ^ n - 1)) + 1 AND (2 ^ n - 1))
                     - get_ahead (control q)) AND (2 ^ n - 1))
              \<and> \<not> (is_wakeup_get_valid q \<and> wakeup_get q = get_ahead (control q))
           then True else is_wakeup_get_valid q)"
    and "wakeup_get (enqueue_event e q) =
          (if notification_threshold q
                \<le> ((2 ^ n + ((put_behind (control q) AND (2 ^ n - 1)) + 1 AND (2 ^ n - 1))
                     - get_ahead (control q)) AND (2 ^ n - 1))
              \<and> \<not> (is_wakeup_get_valid q \<and> wakeup_get q = get_ahead (control q))
           then get_ahead (control q) else wakeup_get q)"
  using c nf [folded full_test_iff [OF n]]
  by (simp_all add: enqueue_event_def Let_def queue_needs_wakeup_def)

lemma enqueue_event_wakeup:
  assumes c: "queue_buffer_count q = 2 ^ n" and n: "n < 32"
    and nf: "(uint (get_behind (control q)) - uint (put_behind (control q))) mod 2 ^ n \<noteq> 1"
  shows "wait_queue_flushes (enqueue_event e q) =
          (if notification_threshold q
                \<le> ((queue_buffer_count q + put_behind (control (enqueue_event e q))
                     - get_ahead (control q)) AND (queue_buffer_count q - 1))
              \<and> \<not> (is_wakeup_get_valid q \<and> wakeup_get q = get_ahead (control q))
           then Suc (wait_queue_flushes q) else wait_queue_flushes q)"
    and "is_wakeup_get_valid (enqueue_event e q) =
          (if notification_threshold q
                \<le> ((queue_buffer_count q + put_behind (control (enqueue_event e q))
                     - get_ahead (control q)) AND (queue_buffer_count q - 1))
              \<and> \<not> (is_wakeup_get_valid q \<and> wakeup_get q = get_ahead (control q))
           then True else is_wakeup_get_valid q)"
    and "wakeup_get (enqueue_event e q) =
          (if notification_threshold q
                \<le> ((queue_buffer_count q + put_behind (control (enqueue_event e q))
                     - get_ahead (control q)) AND (queue_buffer_count q - 1))
              \<and> \<not> (is_wakeup_get_valid q \<and> wakeup_get q = get_ahead (control q))
           then get_ahead (control q) else wakeup_get q)"
  unfolding enqueue_event_not_full(3) [OF c n nf] c
  by (rule enqueue_event_wakeup_raw [OF c n nf])+


text \<open>
  In the scenario of a capacity-4 queue with threshold 2, the fourth record is dropped
  and the drop path returns before the wakeup logic: the number of releases of the wait
  condition after the fourth record is the number after the third.
\<close>

theorem fourth_record_no_wakeup_counterexample:
  "wait_queue_flushes (enqueue_events [example_entry 1, example_entry 2, example_entry 3] example_queue) = 1
   \<and> wait_queue_flushes
        (enqueue_event (example_entry 4)
           (enqueue_events [example_entry 1, example_entry 2, example_entry 3] example_queue))
       = wait_queue_flushes
           (enqueue_events [example_entry 1, example_entry 2, example_entry 3] example_queue)"
  by code_simp

text \<open>
  C8. For every enqueue that stores a record (capacity a power of two): the new cursor
  value is published in both \<open>put_ahead\<close> and \<open>put_behind\<close>; the unread count is
  \<open>(put_behind - get_ahead) mod capacity\<close>, from the producer's view of \<open>get_ahead\<close>; the
  wait condition is released exactly when that count has reached the notification
  threshold and no wakeup has been signaled for this very \<open>get_ahead\<close> value; signaling
  marks the wakeup state valid and records the \<open>get_ahead\<close> value; otherwise the wakeup
  state does not change. In the scenario (capacity 4, threshold 2, event type 2): three
  records with no draining are stored with drop counter 0; the fourth leaves 3 stored and
  sets the drop counter to 1; the wait condition is released once, by the second record,
  and neither the third nor the fourth record releases it again; the wakeup state stays
  marked.
\<close>

theorem enqueue_wakeup:
  assumes c: "queue_buffer_count q = 2 ^ n" and n: "n < 32"
    and nf: "(2 ^ n + uint (get_behind (control q)) - uint (put_behind (control q))) mod 2 ^ n \<noteq> 1"
  shows "put_ahead (control (enqueue_event e q)) = put_behind (control (enqueue_event e q))
    \<and> uint (put_behind (control (enqueue_event e q))) = (uint (put_behind (control q)) + 1) mod 2 ^ n
    \<and> uint ((queue_buffer_count q + put_behind (control (enqueue_event e q))
              - get_ahead (control q)) AND (queue_buffer_count q - 1))
        = (uint (put_behind (control (enqueue_event e q))) - uint (get_ahead (control q))) mod 2 ^ n
    \<and> wait_queue_flushes (enqueue_event e q) =
          (if notification_threshold q
                \<le> ((queue_buffer_count q + put_behind (control (enqueue_event e q))
                     - get_ahead (control q)) AND (queue_buffer_count q - 1))
              \<and> \<not> (is_wakeup_get_valid q \<and> wakeup_get q = get_ahead (control q))
           then Suc (wait_queue_flushes q) else wait_queue_flushes q)
    \<and> is_wakeup_get_valid (enqueue_event e q) =
          (if notification_threshold q
                \<le> ((queue_buffer_count q + put_behind (control (enqueue_event e q))
                     - get_ahead (control q)) AND (queue_buffer_count q - 1))
              \<and> \<not> (is_wakeup_get_valid q \<and> wakeup_get q = get_ahead (control q))
           then True else is_wakeup_get_valid q)
    \<and> wakeup_get (enqueue_event e q) =
          (if notification_threshold q
                \<le> ((queue_buffer_count q + put_behind (control (enqueue_event e q))
                     - get_ahead (control q)) AND (queue_buffer_count q - 1))
              \<and> \<not> (is_wakeup_get_valid q \<and> wakeup_get q = get_ahead (control q))
           then get_ahead (control q) else wakeup_get q)
    \<and> stored_count (enqueue_events [example_entry 1, example_entry 2, example_entry 3] example_queue) = 3
    \<and> dropped (control (enqueue_events [example_entry 1, example_entry 2, example_entry 3]
          example_queue)) 2 = 0
    \<and> stored_count (enqueue_events [example_entry 1, example_entry 2, example_entry 3,
          example_entry 4] example_queue) = 3
    \<and> dropped (control (enqueue_events [example_entry 1, example_entry 2, example_entry 3,
          example_entry 4] example_queue)) 2 = 1
    \<and> map (\<lambda>es. wait_queue_flushes (enqueue_events es example_queue))
          [[], [example_entry 1], [example_entry 1, example_entry 2],
           [example_entry 1, example_entry 2, example_entry 3],
           [example_entry 1, example_entry 2, example_entry 3, example_entry 4]]
        = [0, 0, 1, 1, 1]
    \<and> is_wakeup_get_valid (enqueue_events [example_entry 1, example_entry 2, example_entry 3,
          example_entry 4] example_queue)"
proof -
  let ?g = "uint (get_behind (control q))" and ?p = "uint (put_behind (control q))"
  have f: "(2 ^ n + ?g - ?p) mod 2 ^ n = (?g - ?p) mod 2 ^ n"
    by (simp only: add_diff_eq [symmetric] mod_add_self1)
  have nf': "(?g - ?p) mod 2 ^ n \<noteq> 1" using nf unfolding f .
  note st = enqueue_event_not_full [OF c n nf', of e]
  have pa: "put_ahead (control (enqueue_event e q)) = put_behind (control (enqueue_event e q))"
    by (rule st)
  have pb: "uint (put_behind (control (enqueue_event e q))) = (?p + 1) mod 2 ^ n"
    by (simp only: st(3) uint_next_put [OF n])
  have un: "uint ((queue_buffer_count q + put_behind (control (enqueue_event e q))
              - get_ahead (control q)) AND (queue_buffer_count q - 1))
        = (uint (put_behind (control (enqueue_event e q))) - uint (get_ahead (control q))) mod 2 ^ n"
    unfolding c by (rule uint_free_slots [OF n])
  have a1: "stored_count (enqueue_events [example_entry 1, example_entry 2, example_entry 3] example_queue) = 3"
    by code_simp
  have a2: "dropped (control (enqueue_events [example_entry 1, example_entry 2, example_entry 3]
          example_queue)) 2 = 0"
    by code_simp
  have a3: "stored_count (enqueue_events [example_entry 1, example_entry 2, example_entry 3,
          example_entry 4] example_queue) = 3"
    by code_simp
  have a4: "dropped (control (enqueue_events [example_entry 1, example_entry 2, example_entry 3,
          example_entry 4] example_queue)) 2 = 1"
    by code_simp
  have a5: "map (\<lambda>es. wait_queue_flushes (enqueue_events es example_queue))
          [[], [example_entry 1], [example_entry 1, example_entry 2],
           [example_entry 1, example_entry 2, example_entry 3],
           [example_entry 1, example_entry 2, example_entry 3, example_entry 4]]
        = [0, 0, 1, 1, 1]"
    by code_simp
  have a6: "is_wakeup_get_valid (enqueue_events [example_entry 1, example_entry 2, example_entry 3,
          example_entry 4] example_queue)"
    by code_simp
  note w = enqueue_event_wakeup [OF c n nf', of e]
  show ?thesis
    by (intro conjI pa pb un w a1 a2 a3 a4 a5 a6)
qed

text \<open>The second record of the scenario reaches the threshold and signals the wakeup.\<close>

theorem enqueue_wakeup_witness:
  "wait_queue_flushes (enqueue_event (example_entry 2) (enqueue_event (example_entry 1) example_queue)) = 1
   \<and> is_wakeup_get_valid (enqueue_event (example_entry 2) (enqueue_event (example_entry 1) example_queue))
   \<and> wakeup_get (enqueue_event (example_entry 2) (enqueue_event (example_entry 1) example_queue)) = 0
   \<and> put_behind (control (enqueue_event (example_entry 2) (enqueue_event (example_entry 1) example_queue))) = 2"
proof -
  define q1 where "q1 = enqueue_event (example_entry 1) example_queue"
  have fields: "queue_buffer_count q1 = 4" "get_behind (control q1) = 0"
    "put_behind (control q1) = 1" "get_ahead (control q1) = 0" "notification_threshold q1 = 2"
    "is_wakeup_get_valid q1 = False" "wait_queue_flushes q1 = 0" "wakeup_get q1 = 0"
    unfolding q1_def by code_simp+
  have c: "queue_buffer_count q1 = 2 ^ 2" by (simp add: fields)
  have n: "(2::nat) < 32" by simp
  have nf: "(2 ^ 2 + uint (get_behind (control q1)) - uint (put_behind (control q1))) mod 2 ^ 2 \<noteq> 1"
    by (simp add: fields)
  have pb: "put_behind (control (enqueue_event (example_entry 2) q1)) = 2"
    unfolding q1_def by code_simp
  from enqueue_wakeup [OF c n nf, of "example_entry 2"]
  have "wait_queue_flushes (enqueue_event (example_entry 2) q1) = 1
   \<and> is_wakeup_get_valid (enqueue_event (example_entry 2) q1)
   \<and> wakeup_get (enqueue_event (example_entry 2) q1) = 0
   \<and> put_behind (control (enqueue_event (example_entry 2) q1)) = 2"
    by (simp add: fields pb)
  then show ?thesis by (simp only: q1_def)
qed

subsection \<open>Properties of the deferred migration events\<close>

lemma migration_chain_length: "length (migration_chain k b ts ms) = length ms"
  by (induction ms arbitrary: ts) simp_all

lemma migration_chain_nth:
  "i < length ms \<Longrightarrow>
   migration_chain k b ts ms ! i =
     migration_event k b (if i = 0 then ts else end_timestamp_gpu (ms ! (i - 1))) (ms ! i)"
proof (induction ms arbitrary: ts i)
  case Nil
  then show ?case by simp
next
  case (Cons m ms)
  show ?case
  proof (cases i)
    case 0
    then show ?thesis by simp
  next
    case (Suc j)
    with Cons.prems have j: "j < length ms" by simp
    show ?thesis
      using Cons.IH [OF j, of "end_timestamp_gpu m"] Suc
      by (cases j) simp_all
  qed
qed

lemma migration_chain_events:
  "migration_chain k b (start_timestamp_gpu b) ms = migration_events k b ms"
  by (rule nth_equalityI)
     (simp_all add: migration_chain_length migration_events_def migration_chain_nth)

lemma migration_event_events_irrelevant:
  "migration_event k (b\<lparr>bm_events := ps\<rparr>) ts m = migration_event k b ts m"
  by (simp add: migration_event_def)

lemma migration_chain_events_irrelevant:
  "migration_chain k (b\<lparr>bm_events := ps\<rparr>) ts ms = migration_chain k b ts ms"
  by (induction ms arbitrary: ts) (simp_all add: migration_event_events_irrelevant)

lemma record_migration_event_ok:
  assumes "UvmEventTypeMigration k < UvmEventNumTypesAll k" and "UvmEventNumTypesAll k \<le> 64"
  shows "uvm_tools_record_event k tq (migration_event k b ts m) st
       = Inr (enqueue_on_all (tq (UvmEventTypeMigration k)) (migration_event k b ts m) st)"
proof -
  have "UvmEventTypeMigration k < 256" using assms by simp
  then have "unat (of_nat (UvmEventTypeMigration k) :: 8 word) = UvmEventTypeMigration k"
    by (simp add: unat_of_nat)
  then show ?thesis using assms(1)
    by (simp add: uvm_tools_record_event_def migration_event_def)
qed

lemma update_entry_migration_event:
  "(migration_event k b ts0 m0)\<lparr>payload := (payload (migration_event k b ts0 m0))
      \<lparr>address := mig_address m, migratedBytes := mig_bytes m, beginTimeStampGpu := ts,
       endTimeStampGpu := end_timestamp_gpu m, migrationCause := ucast (mig_cause m)\<rparr>\<rparr>
   = migration_event k b ts m"
  by (simp add: migration_event_def)

lemma record_migration_loop_run:
  assumes "UvmEventTypeMigration k < UvmEventNumTypesAll k" and "UvmEventNumTypesAll k \<le> 64"
    and "g_tools_block_migration_data_cache s bp = Some b" and "bm_events b = ps"
    and "distinct ps"
    and "\<forall>p\<in>set ps. \<exists>m. g_tools_migration_data_cache s p = Some m \<and> 0 < mig_bytes m"
    and "entry = migration_event k b ts0 m0"
  shows "record_migration_loop k tq bp ps entry ts s =
     Inr \<lparr>g_tools_block_migration_data_cache =
            (g_tools_block_migration_data_cache s)(bp \<mapsto> b\<lparr>bm_events := []\<rparr>),
          g_tools_migration_data_cache =
            (\<lambda>p. if p \<in> set ps then None else g_tools_migration_data_cache s p),
          tools_queue_store =
            fold (enqueue_on_all (tq (UvmEventTypeMigration k)))
              (migration_chain k b ts (map (\<lambda>p. the (g_tools_migration_data_cache s p)) ps))
              (tools_queue_store s)\<rparr>"
  using assms
proof (induction ps arbitrary: s b entry ts ts0 m0)
  case Nil
  have "b\<lparr>bm_events := []\<rparr> = b" using Nil.prems(4) by (cases b) simp
  then have "(g_tools_block_migration_data_cache s)(bp \<mapsto> b\<lparr>bm_events := []\<rparr>)
      = g_tools_block_migration_data_cache s"
    using Nil.prems(3) by (simp add: fun_upd_idem_iff)
  then show ?case by (cases s) simp
next
  case (Cons p ps)
  from Cons.prems(6) obtain m where m: "g_tools_migration_data_cache s p = Some m" "0 < mig_bytes m"
    by auto
  let ?b' = "b\<lparr>bm_events := ps\<rparr>"
  let ?e = "migration_event k b ts m"
  let ?s3 = "\<lparr>g_tools_block_migration_data_cache =
               (g_tools_block_migration_data_cache s)(bp \<mapsto> ?b'),
             g_tools_migration_data_cache = (g_tools_migration_data_cache s)(p := None),
             tools_queue_store = enqueue_on_all (tq (UvmEventTypeMigration k)) ?e (tools_queue_store s)\<rparr>"
  have del: "list_del_event bp p s =
       s\<lparr>g_tools_block_migration_data_cache := (g_tools_block_migration_data_cache s)(bp \<mapsto> ?b')\<rparr>"
    using Cons.prems(3,4) by (simp add: list_del_event_def)
  have upd: "entry\<lparr>payload := (payload entry)
      \<lparr>address := mig_address m, migratedBytes := mig_bytes m, beginTimeStampGpu := ts,
       endTimeStampGpu := end_timestamp_gpu m, migrationCause := ucast (mig_cause m)\<rparr>\<rparr> = ?e"
    unfolding Cons.prems(7) by (rule update_entry_migration_event)
  have rec: "uvm_tools_record_event k tq ?e (tools_queue_store s)
       = Inr (enqueue_on_all (tq (UvmEventTypeMigration k)) ?e (tools_queue_store s))"
    by (rule record_migration_event_ok [OF Cons.prems(1,2)])
  have s3: "s\<lparr>g_tools_block_migration_data_cache :=
               (g_tools_block_migration_data_cache s)(bp \<mapsto> ?b'),
             g_tools_migration_data_cache := (g_tools_migration_data_cache s)(p := None),
             tools_queue_store :=
               enqueue_on_all (tq (UvmEventTypeMigration k)) ?e (tools_queue_store s)\<rparr> = ?s3"
    by (cases s) simp
  have step: "record_migration_loop k tq bp (p # ps) entry ts s
       = record_migration_loop k tq bp ps ?e (end_timestamp_gpu m) ?s3"
    using m by (simp add: del upd rec Let_def s3)
  have p: "p \<notin> set ps" "distinct ps" using Cons.prems(5) by simp_all
  have live: "\<forall>q\<in>set ps. \<exists>m. g_tools_migration_data_cache ?s3 q = Some m \<and> 0 < mig_bytes m"
    using Cons.prems(6) p by auto
  have e': "?e = migration_event k ?b' ts m"
    by (simp add: migration_event_events_irrelevant)
  have same: "map (\<lambda>q. the (g_tools_migration_data_cache ?s3 q)) ps
       = map (\<lambda>q. the (g_tools_migration_data_cache s q)) ps"
    using p by (intro map_cong) auto
  have ih: "record_migration_loop k tq bp ps ?e (end_timestamp_gpu m) ?s3 =
     Inr \<lparr>g_tools_block_migration_data_cache =
            (g_tools_block_migration_data_cache ?s3)(bp \<mapsto> ?b'\<lparr>bm_events := []\<rparr>),
          g_tools_migration_data_cache =
            (\<lambda>q. if q \<in> set ps then None else g_tools_migration_data_cache ?s3 q),
          tools_queue_store =
            fold (enqueue_on_all (tq (UvmEventTypeMigration k)))
              (migration_chain k ?b' (end_timestamp_gpu m)
                 (map (\<lambda>q. the (g_tools_migration_data_cache ?s3 q)) ps))
              (tools_queue_store ?s3)\<rparr>"
    by (rule Cons.IH [OF Cons.prems(1,2) _ _ p(2) live e']) simp_all
  have caches: "(\<lambda>q. if q \<in> set ps then None else g_tools_migration_data_cache ?s3 q)
       = (\<lambda>q. if q \<in> set (p # ps) then None else g_tools_migration_data_cache s q)"
    by (auto simp: fun_eq_iff)
  show ?case
    unfolding step ih same caches
    using m by (auto simp: migration_chain_events_irrelevant fun_eq_iff)
qed

lemma init_migration_entry_event:
  "init_migration_entry k b =
     migration_event k b 0 \<lparr>mig_bytes = 0, mig_address = 0, end_timestamp_gpu = 0, mig_cause = 0\<rparr>"
  by (simp add: init_migration_entry_def migration_event_def memset_zero_migration_entry_def)

lemma migration_events_nth:
  "i < length ms \<Longrightarrow>
   migration_events k b ms ! i =
     migration_event k b (if i = 0 then start_timestamp_gpu b else end_timestamp_gpu (ms ! (i - 1)))
       (ms ! i)"
  by (simp add: migration_events_def)

text \<open>
  C2. For a deferred migration batch handed to the background worker, with \<open>K\<close> live,
  pairwise different sub-events of non-zero size in its list: the worker returns normally;
  what it does to the queues of the collector is to record exactly \<open>K\<close> events, in the
  insertion order of the sub-events, on every queue subscribed to the migration event
  type; the \<open>i\<close>-th event carries the fields of the batch and of the \<open>i\<close>-th sub-event
  (the cause and the processor indices as the low byte of the value assigned), its
  begin GPU timestamp is the end GPU timestamp of the sub-event (and of the event) before
  it, and the start GPU timestamp of the batch for the first; after the loop the list of
  the batch is empty; when the worker returns, the batch record and all its details are
  freed and no other object is.
\<close>

theorem record_migration_events_chained:
  assumes t: "UvmEventTypeMigration k < UvmEventNumTypesAll k" and n: "UvmEventNumTypesAll k \<le> 64"
    and blk: "g_tools_block_migration_data_cache s bp = Some b"
    and dist: "distinct (bm_events b)"
    and live: "\<forall>p\<in>set (bm_events b). \<exists>m. g_tools_migration_data_cache s p = Some m \<and> 0 < mig_bytes m"
  shows "\<exists>s' s1.
      record_migration_events k tq bp s = Inr s'
    \<and> length (migration_events k b (batch_details s b)) = length (bm_events b)
    \<and> tools_queue_store s' =
         fold (enqueue_on_all (tq (UvmEventTypeMigration k)))
           (migration_events k b (batch_details s b)) (tools_queue_store s)
    \<and> (\<forall>i<length (bm_events b).
          migration_events k b (batch_details s b) ! i =
            migration_event k b
              (if i = 0 then start_timestamp_gpu b
               else end_timestamp_gpu (batch_details s b ! (i - 1)))
              (batch_details s b ! i)
        \<and> beginTimeStampGpu (payload (migration_events k b (batch_details s b) ! i)) =
              (if i = 0 then start_timestamp_gpu b
               else endTimeStampGpu (payload (migration_events k b (batch_details s b) ! (i - 1)))))
    \<and> record_migration_loop k tq bp (bm_events b) (init_migration_entry k b)
          (start_timestamp_gpu b) s = Inr s1
    \<and> map_option bm_events (g_tools_block_migration_data_cache s1 bp) = Some []
    \<and> g_tools_block_migration_data_cache s' = (g_tools_block_migration_data_cache s)(bp := None)
    \<and> g_tools_migration_data_cache s' =
         (\<lambda>p. if p \<in> set (bm_events b) then None else g_tools_migration_data_cache s p)"
proof -
  let ?T = "UvmEventTypeMigration k"
  let ?es = "migration_events k b (batch_details s b)"
  let ?s1 = "\<lparr>g_tools_block_migration_data_cache =
            (g_tools_block_migration_data_cache s)(bp \<mapsto> b\<lparr>bm_events := []\<rparr>),
          g_tools_migration_data_cache =
            (\<lambda>p. if p \<in> set (bm_events b) then None else g_tools_migration_data_cache s p),
          tools_queue_store = fold (enqueue_on_all (tq ?T)) ?es (tools_queue_store s)\<rparr>"
  have loop: "record_migration_loop k tq bp (bm_events b) (init_migration_entry k b)
          (start_timestamp_gpu b) s = Inr ?s1"
    using record_migration_loop_run [OF t n blk refl dist live init_migration_entry_event,
        of tq "start_timestamp_gpu b"]
    by (simp add: migration_chain_events batch_details_def)
  have run: "record_migration_events k tq bp s =
      Inr (?s1\<lparr>g_tools_block_migration_data_cache :=
              (g_tools_block_migration_data_cache ?s1)(bp := None)\<rparr>)"
    using blk by (simp add: record_migration_events_def loop Let_def)
  have len: "length ?es = length (bm_events b)"
    by (simp add: migration_events_def batch_details_def)
  have lenb: "length (batch_details s b) = length (bm_events b)"
    by (simp add: batch_details_def)
  have nth: "\<forall>i<length (bm_events b).
          ?es ! i = migration_event k b
              (if i = 0 then start_timestamp_gpu b
               else end_timestamp_gpu (batch_details s b ! (i - 1)))
              (batch_details s b ! i)
        \<and> beginTimeStampGpu (payload (?es ! i)) =
              (if i = 0 then start_timestamp_gpu b
               else endTimeStampGpu (payload (?es ! (i - 1))))"
  proof (intro allI impI)
    fix i assume i: "i < length (bm_events b)"
    then have i': "i < length (batch_details s b)" "i - 1 < length (batch_details s b)"
      using lenb by simp_all
    show "?es ! i = migration_event k b
              (if i = 0 then start_timestamp_gpu b
               else end_timestamp_gpu (batch_details s b ! (i - 1)))
              (batch_details s b ! i)
        \<and> beginTimeStampGpu (payload (?es ! i)) =
              (if i = 0 then start_timestamp_gpu b
               else endTimeStampGpu (payload (?es ! (i - 1))))"
      unfolding migration_events_nth [OF i'(1)] migration_events_nth [OF i'(2)]
      by (simp add: migration_event_def)
  qed
  show ?thesis
    apply (rule exI [of _ "?s1\<lparr>g_tools_block_migration_data_cache :=
              (g_tools_block_migration_data_cache ?s1)(bp := None)\<rparr>"])
    apply (rule exI [of _ ?s1])
    apply (intro conjI run len nth loop)
    apply simp_all
    done
qed

text \<open>
  The batch of two sub-events: the queue receives two events, the second beginning at
  1100 where the first ended, with the source index 2, the destination index 44 and the
  cause 1 in their bytes, and the three objects are freed.
\<close>

theorem record_migration_events_chained_witness:
  "\<exists>s'. record_migration_events example_consts example_tools_queues 100 example_deferred_state = Inr s'
     \<and> map (\<lambda>i. (beginTimeStampGpu (payload (queue (tools_queue_store s' 0) i)),
                   endTimeStampGpu (payload (queue (tools_queue_store s' 0) i)))) [0, 1]
         = [(1000, 1100), (1100, 1250)]
     \<and> map (\<lambda>i. address (payload (queue (tools_queue_store s' 0) i))) [0, 1] = [0x10000, 0x20000]
     \<and> map (\<lambda>i. (srcIndex (payload (queue (tools_queue_store s' 0) i)),
                   dstIndex (payload (queue (tools_queue_store s' 0) i)),
                   migrationCause (payload (queue (tools_queue_store s' 0) i)))) [0, 1]
         = [(2, 44, 1), (2, 44, 1)]
     \<and> stored_count (tools_queue_store s' 0) = 2
     \<and> g_tools_block_migration_data_cache s' 100 = None
     \<and> g_tools_migration_data_cache s' 10 = None
     \<and> g_tools_migration_data_cache s' 11 = None"
proof -
  let ?b = "\<lparr>bm_dst = 300, bm_src = 258, bm_events = [10, 11],
             start_timestamp_cpu = 5, end_timestamp_cpu = 9,
             start_timestamp_gpu = 1000, range_group_id = 0\<rparr>"
  let ?es = "migration_events example_consts ?b (batch_details example_deferred_state ?b)"
  let ?st = "fold (enqueue_on_all (example_tools_queues (UvmEventTypeMigration example_consts))) ?es
               (tools_queue_store example_deferred_state)"
  have t: "UvmEventTypeMigration example_consts < UvmEventNumTypesAll example_consts"
    and n: "UvmEventNumTypesAll example_consts \<le> 64"
    by (simp_all add: example_consts_def)
  have blk: "g_tools_block_migration_data_cache example_deferred_state 100 = Some ?b"
    by (simp add: example_deferred_state_def)
  have dist: "distinct (bm_events ?b)" by simp
  have live: "\<forall>p\<in>set (bm_events ?b).
      \<exists>m. g_tools_migration_data_cache example_deferred_state p = Some m \<and> 0 < mig_bytes m"
    by (simp add: example_deferred_state_def)
  from record_migration_events_chained [OF t n blk dist live, of example_tools_queues]
  obtain s' where r: "record_migration_events example_consts example_tools_queues 100
        example_deferred_state = Inr s'"
    and st: "tools_queue_store s' = ?st"
    and bc: "g_tools_block_migration_data_cache s' =
        (g_tools_block_migration_data_cache example_deferred_state)(100 := None)"
    and mc: "g_tools_migration_data_cache s' =
         (\<lambda>p. if p \<in> set (bm_events ?b) then None
              else g_tools_migration_data_cache example_deferred_state p)"
    by blast
  have q1: "map (\<lambda>i. (beginTimeStampGpu (payload (queue (?st 0) i)),
                   endTimeStampGpu (payload (queue (?st 0) i)))) [0, 1]
         = [(1000, 1100), (1100, 1250)]"
    by code_simp
  have q2: "map (\<lambda>i. address (payload (queue (?st 0) i))) [0, 1] = [0x10000, 0x20000]"
    by code_simp
  have q3: "stored_count (?st 0) = 2"
    by code_simp
  have q4: "map (\<lambda>i. (srcIndex (payload (queue (?st 0) i)), dstIndex (payload (queue (?st 0) i)),
                   migrationCause (payload (queue (?st 0) i)))) [0, 1]
         = [(2, 44, 1), (2, 44, 1)]"
    by code_simp
  show ?thesis
    apply (rule exI [of _ s'])
    apply (intro conjI r)
    apply (simp_all only: st q1 q2 q3 q4 bc mc)
    apply simp_all
    done
qed

subsection \<open>Zero-initialisation of recorded entries\<close>

text \<open>
  C6. The entry that \<open>uvm_tools_test_hmm_split_invalidate\<close> hands to
  \<open>uvm_tools_record_event\<close> is not zero-initialised. With tools enabled, one queue
  subscribed to the split-invalidate event type and a stack that held the bytes
  \<open>55 DE AD BE EF\<close>, the record copied into the subscriber's ring buffer has the event type 62
  and the four stale bytes \<open>DE AD BE EF\<close>, not zeros.
\<close>

theorem split_invalidate_stale_bytes:
  "\<exists>st. uvm_tools_test_hmm_split_invalidate example_consts True (\<lambda>t. if t = 62 then [0] else [])
          \<lparr>eventType = 0x55, payload = [0xDE, 0xAD, 0xBE, 0xEF]\<rparr> (\<lambda>_. example_byte_queue) = Inr st
     \<and> eventType (queue (st 0) 0) = 62
     \<and> payload (queue (st 0) 0) = [0xDE, 0xAD, 0xBE, 0xEF]
     \<and> payload (queue (st 0) 0) \<noteq> [0, 0, 0, 0]"
proof -
  let ?st = "enqueue_on_all [0] \<lparr>eventType = 62, payload = [0xDE, 0xAD, 0xBE, 0xEF :: 8 word]\<rparr>
               (\<lambda>_. example_byte_queue)"
  have r: "uvm_tools_test_hmm_split_invalidate example_consts True (\<lambda>t. if t = 62 then [0] else [])
          \<lparr>eventType = 0x55, payload = [0xDE, 0xAD, 0xBE, 0xEF]\<rparr> (\<lambda>_. example_byte_queue) = Inr ?st"
    by (simp add: uvm_tools_test_hmm_split_invalidate_def uvm_tools_record_event_def
        example_consts_def)
  have a: "eventType (queue (?st 0) 0) = 62" by code_simp
  have b: "payload (queue (?st 0) 0) = [0xDE, 0xAD, 0xBE, 0xEF]" by code_simp
  have c: "payload (queue (?st 0) 0) \<noteq> [0, 0, 0, 0]" unfolding b by simp
  show ?thesis
    by (rule exI [of _ ?st]) (intro conjI r a b c)
qed

subsection \<open>Properties of the subscription registry\<close>

lemma insert_step_bit:
  "insert_step node ins i (c, l) =
     (if bit ins i then (c(i := c i + 1), l(i := node # l i)) else (c, l))"
  by (simp add: insert_step_def bit_iff_and_push_bit_not_eq_0)

lemma fold_insert_step:
  "fold (insert_step node ins) [0..<n] (c, l) =
     (\<lambda>i. if i < n \<and> bit ins i then c i + 1 else c i,
      \<lambda>i. if i < n \<and> bit ins i then node # l i else l i)"
proof (induction n)
  case 0
  then show ?case by simp
next
  case (Suc n)
  show ?case
    by (simp only: upt_Suc_append [OF le0] fold_append o_apply Suc fold_simps insert_step_bit)
       (auto simp: fun_eq_iff less_Suc_eq)
qed

lemma remove_step_bit:
  "remove_step node rm i (Inr (c, l)) =
     (if bit rm i
      then (if c i = 0 then Inl Assert_failed
            else Inr (c(i := c i - 1), l(i := remove1 node (l i))))
      else Inr (c, l))"
  by (simp add: remove_step_def bit_iff_and_push_bit_not_eq_0 word_gt_0)

lemma fold_remove_step:
  assumes "\<forall>i<n. bit rm i \<longrightarrow> c i \<noteq> 0"
  shows "fold (remove_step node rm) [0..<n] (Inr (c, l)) =
     Inr (\<lambda>i. if i < n \<and> bit rm i then c i - 1 else c i,
          \<lambda>i. if i < n \<and> bit rm i then remove1 node (l i) else l i)"
  using assms
proof (induction n)
  case 0
  then show ?case by simp
next
  case (Suc n)
  then have ih: "fold (remove_step node rm) [0..<n] (Inr (c, l)) =
     Inr (\<lambda>i. if i < n \<and> bit rm i then c i - 1 else c i,
          \<lambda>i. if i < n \<and> bit rm i then remove1 node (l i) else l i)"
    by simp
  have cn: "bit rm n \<longrightarrow> c n \<noteq> 0" using Suc.prems by simp
  show ?case
    using cn
    by (simp only: upt_Suc_append [OF le0] fold_append o_apply ih fold_simps remove_step_bit)
       (auto simp: fun_eq_iff less_Suc_eq)
qed

lemma insert_event_tracker_eq:
  "insert_event_tracker node n m sub l c =
     (\<lambda>i. if i < n \<and> bit m i \<and> \<not> bit sub i then c i + 1 else c i,
      \<lambda>i. if i < n \<and> bit m i \<and> \<not> bit sub i then node # l i else l i,
      sub OR m, m AND NOT sub)"
  by (auto simp: insert_event_tracker_def fold_insert_step Let_def bit_and_iff bit_not_iff fun_eq_iff
      dest: bit_imp_possible_bit)

lemma remove_event_tracker_eq:
  assumes "\<forall>i<n. bit m i \<and> bit sub i \<longrightarrow> c i \<noteq> 0"
  shows "remove_event_tracker node n m sub l c =
     Inr (\<lambda>i. if i < n \<and> bit m i \<and> bit sub i then c i - 1 else c i,
          \<lambda>i. if i < n \<and> bit m i \<and> bit sub i then remove1 node (l i) else l i,
          sub AND NOT m)"
proof -
  have "\<forall>i<n. bit (m AND sub) i \<longrightarrow> c i \<noteq> 0"
    using assms by (simp add: bit_and_iff)
  from fold_remove_step [OF this] show ?thesis
    by (simp add: remove_event_tracker_def Let_def bit_and_iff)
qed

lemma subscribers_bound:
  assumes "\<forall>t. tracker_subscribed_queues s t \<noteq> 0 \<longrightarrow> t < B"
  shows "subscribers s i \<subseteq> {..<B}"
proof
  fix t assume "t \<in> subscribers s i"
  then have "bit (tracker_subscribed_queues s t) i" by (simp add: subscribers_def)
  then have "tracker_subscribed_queues s t \<noteq> 0" by auto
  with assms show "t \<in> {..<B}" by simp
qed

lemma subscribers_finite:
  assumes "\<forall>t. tracker_subscribed_queues s t \<noteq> 0 \<longrightarrow> t < B"
  shows "finite (subscribers s i)" and "card (subscribers s i) \<le> B"
proof -
  from subscribers_bound [OF assms] have sub: "subscribers s i \<subseteq> {..<B}" .
  then show "finite (subscribers s i)" by (rule finite_subset) simp
  from sub have "card (subscribers s i) \<le> card {..<B}" by (intro card_mono) simp_all
  then show "card (subscribers s i) \<le> B" by simp
qed

lemma subscribe_eq:
  "subscribe k sp t m s =
     s\<lparr>g_tools_enabled_event_count :=
          (\<lambda>i. if i < UvmEventNumTypesAll k \<and> bit m i \<and> \<not> bit (tracker_subscribed_queues s t) i
               then g_tools_enabled_event_count s i + 1 else g_tools_enabled_event_count s i),
       va_space_queues := (va_space_queues s)(sp t :=
          (\<lambda>i. if i < UvmEventNumTypesAll k \<and> bit m i \<and> \<not> bit (tracker_subscribed_queues s t) i
               then t # va_space_queues s (sp t) i else va_space_queues s (sp t) i)),
       tracker_subscribed_queues :=
          (tracker_subscribed_queues s)(t := tracker_subscribed_queues s t OR m)\<rparr>"
  by (simp add: subscribe_def insert_event_tracker_eq)

lemma subscribers_subscribe:
  "subscribers (subscribe k sp t m s) i =
     (if bit m i then insert t (subscribers s i) else subscribers s i)"
  by (auto simp: subscribe_eq subscribers_def bit_or_iff)

lemma subscribe_inv:
  assumes inv: "registry_inv k sp B s" and t: "t < B"
  shows "registry_inv k sp B (subscribe k sp t m s)"
proof -
  let ?N = "UvmEventNumTypesAll k"
  let ?s' = "subscribe k sp t m s"
  from inv have b: "\<forall>t. tracker_subscribed_queues s t \<noteq> 0 \<longrightarrow> t < B"
    and d: "\<And>vs i. distinct (va_space_queues s vs i)"
    and m: "\<And>vs i. set (va_space_queues s vs i) =
            {t. sp t = vs \<and> i < ?N \<and> bit (tracker_subscribed_queues s t) i}"
    and c: "\<And>i. i < ?N \<Longrightarrow> g_tools_enabled_event_count s i = of_nat (card (subscribers s i))"
    by (simp_all add: registry_inv_def)
  have b': "\<forall>t'. tracker_subscribed_queues ?s' t' \<noteq> 0 \<longrightarrow> t' < B"
    using b t by (simp add: subscribe_eq)
  have d': "\<forall>vs i. distinct (va_space_queues ?s' vs i)"
    using d m by (auto simp: subscribe_eq)
  have m': "\<forall>vs i. set (va_space_queues ?s' vs i) =
            {t'. sp t' = vs \<and> i < ?N \<and> bit (tracker_subscribed_queues ?s' t') i}"
    using m by (auto simp: subscribe_eq bit_or_iff)
  have c': "\<forall>i<?N. g_tools_enabled_event_count ?s' i = of_nat (card (subscribers ?s' i))"
  proof (intro allI impI)
    fix i assume i: "i < ?N"
    have fin: "finite (subscribers s i)" by (rule subscribers_finite [OF b])
    have mem: "t \<in> subscribers s i \<longleftrightarrow> bit (tracker_subscribed_queues s t) i"
      by (simp add: subscribers_def)
    have cnt: "g_tools_enabled_event_count ?s' i =
        (if bit m i \<and> \<not> bit (tracker_subscribed_queues s t) i
         then g_tools_enabled_event_count s i + 1 else g_tools_enabled_event_count s i)"
      using i by (simp add: subscribe_eq)
    show "g_tools_enabled_event_count ?s' i = of_nat (card (subscribers ?s' i))"
      unfolding cnt subscribers_subscribe c [OF i]
      using fin mem by (simp add: card_insert_if)
  qed
  from b' d' m' c' show ?thesis by (simp add: registry_inv_def)
qed

lemma of_nat32_ne0:
  assumes "0 < n" "n < 2 ^ 32"
  shows "(of_nat n :: 32 word) \<noteq> 0"
proof
  assume "(of_nat n :: 32 word) = 0"
  then have "unat (of_nat n :: 32 word) = 0" by simp
  then have "n mod 2 ^ 32 = 0" by (simp add: unat_of_nat)
  with assms show False by simp
qed

lemma count_ne0:
  assumes inv: "registry_inv k sp B s" and B: "B < 2 ^ 32"
    and i: "i < UvmEventNumTypesAll k" and t: "bit (tracker_subscribed_queues s t) i"
  shows "g_tools_enabled_event_count s i \<noteq> 0"
proof -
  from inv have b: "\<forall>t. tracker_subscribed_queues s t \<noteq> 0 \<longrightarrow> t < B"
    and c: "g_tools_enabled_event_count s i = of_nat (card (subscribers s i))"
    using i by (simp_all add: registry_inv_def)
  have "t \<in> subscribers s i" using t by (simp add: subscribers_def)
  then have "0 < card (subscribers s i)"
    using subscribers_finite(1) [OF b, of i] by (auto simp: card_gt_0_iff)
  moreover have "card (subscribers s i) < 2 ^ 32"
    using subscribers_finite(2) [OF b, of i] B by simp
  ultimately show ?thesis unfolding c by (rule of_nat32_ne0)
qed

lemma unsubscribe_eq:
  assumes inv: "registry_inv k sp B s" and B: "B < 2 ^ 32"
  shows "unsubscribe k sp t m s =
     Inr (s\<lparr>g_tools_enabled_event_count :=
          (\<lambda>i. if i < UvmEventNumTypesAll k \<and> bit m i \<and> bit (tracker_subscribed_queues s t) i
               then g_tools_enabled_event_count s i - 1 else g_tools_enabled_event_count s i),
       va_space_queues := (va_space_queues s)(sp t :=
          (\<lambda>i. if i < UvmEventNumTypesAll k \<and> bit m i \<and> bit (tracker_subscribed_queues s t) i
               then remove1 t (va_space_queues s (sp t) i) else va_space_queues s (sp t) i)),
       tracker_subscribed_queues :=
          (tracker_subscribed_queues s)(t := tracker_subscribed_queues s t AND NOT m)\<rparr>)"
proof -
  have "\<forall>i<UvmEventNumTypesAll k. bit m i \<and> bit (tracker_subscribed_queues s t) i
          \<longrightarrow> g_tools_enabled_event_count s i \<noteq> 0"
    using count_ne0 [OF inv B] by blast
  from remove_event_tracker_eq [OF this] show ?thesis
    by (simp add: unsubscribe_def)
qed

lemma subscribers_unsubscribed:
  "tracker_subscribed_queues s' =
     (tracker_subscribed_queues s)(t := tracker_subscribed_queues s t AND NOT m) \<Longrightarrow>
   subscribers s' i = (if bit m i then subscribers s i - {t} else subscribers s i)"
  by (auto simp: subscribers_def bit_and_iff bit_not_iff dest: bit_imp_possible_bit)

lemma unsubscribe_inv:
  assumes inv: "registry_inv k sp B s" and B: "B < 2 ^ 32"
  shows "\<exists>s'. unsubscribe k sp t m s = Inr s' \<and> registry_inv k sp B s'"
proof -
  let ?N = "UvmEventNumTypesAll k"
  let ?s' = "s\<lparr>g_tools_enabled_event_count :=
          (\<lambda>i. if i < ?N \<and> bit m i \<and> bit (tracker_subscribed_queues s t) i
               then g_tools_enabled_event_count s i - 1 else g_tools_enabled_event_count s i),
       va_space_queues := (va_space_queues s)(sp t :=
          (\<lambda>i. if i < ?N \<and> bit m i \<and> bit (tracker_subscribed_queues s t) i
               then remove1 t (va_space_queues s (sp t) i) else va_space_queues s (sp t) i)),
       tracker_subscribed_queues :=
          (tracker_subscribed_queues s)(t := tracker_subscribed_queues s t AND NOT m)\<rparr>"
  from inv have b: "\<forall>t. tracker_subscribed_queues s t \<noteq> 0 \<longrightarrow> t < B"
    and d: "\<And>vs i. distinct (va_space_queues s vs i)"
    and m: "\<And>vs i. set (va_space_queues s vs i) =
            {t. sp t = vs \<and> i < ?N \<and> bit (tracker_subscribed_queues s t) i}"
    and c: "\<And>i. i < ?N \<Longrightarrow> g_tools_enabled_event_count s i = of_nat (card (subscribers s i))"
    by (simp_all add: registry_inv_def)
  have nz: "tracker_subscribed_queues s t AND NOT m \<noteq> 0 \<Longrightarrow> tracker_subscribed_queues s t \<noteq> 0"
    by auto
  have b': "\<forall>t'. tracker_subscribed_queues ?s' t' \<noteq> 0 \<longrightarrow> t' < B"
    using b nz by auto
  have d': "\<forall>vs i. distinct (va_space_queues ?s' vs i)"
    using d by auto
  have m': "\<forall>vs i. set (va_space_queues ?s' vs i) =
            {t'. sp t' = vs \<and> i < ?N \<and> bit (tracker_subscribed_queues ?s' t') i}"
    using m d by (auto simp: bit_and_iff bit_not_iff dest: bit_imp_possible_bit)
  have c': "\<forall>i<?N. g_tools_enabled_event_count ?s' i = of_nat (card (subscribers ?s' i))"
  proof (intro allI impI)
    fix i assume i: "i < ?N"
    have fin: "finite (subscribers s i)" by (rule subscribers_finite [OF b])
    have mem: "t \<in> subscribers s i \<longleftrightarrow> bit (tracker_subscribed_queues s t) i"
      by (simp add: subscribers_def)
    have s': "subscribers ?s' i = (if bit m i then subscribers s i - {t} else subscribers s i)"
      by (rule subscribers_unsubscribed) simp
    have cnt: "g_tools_enabled_event_count ?s' i =
        (if bit m i \<and> bit (tracker_subscribed_queues s t) i
         then g_tools_enabled_event_count s i - 1 else g_tools_enabled_event_count s i)"
      using i by simp
    have pos: "t \<in> subscribers s i \<Longrightarrow> 1 \<le> card (subscribers s i)"
      using fin by (auto simp: Suc_le_eq card_gt_0_iff)
    show "g_tools_enabled_event_count ?s' i = of_nat (card (subscribers ?s' i))"
      unfolding cnt s' c [OF i]
      using fin mem pos by (auto simp: card_Diff_singleton_if of_nat_diff)
  qed
  have "registry_inv k sp B ?s'"
    unfolding registry_inv_def using b' d' m' c' by blast
  with unsubscribe_eq [OF inv B, of t m] show ?thesis by blast
qed

lemma registry_init_inv: "registry_inv k sp B registry_init"
  by (simp add: registry_inv_def registry_init_def subscribers_def)

lemma registry_run_inv:
  assumes "registry_inv k sp B s" and "B < 2 ^ 32" and "\<forall>x\<in>set ops. op_tracker x < B"
  shows "\<exists>s'. registry_run k sp ops s = Inr s' \<and> registry_inv k sp B s'"
  using assms
proof (induction ops arbitrary: s)
  case Nil
  then show ?case by simp
next
  case (Cons x xs)
  have "\<exists>s1. registry_step k sp x s = Inr s1 \<and> registry_inv k sp B s1"
  proof (cases x)
    case (Subscribe t m)
    with Cons.prems have "t < B" by simp
    from subscribe_inv [OF Cons.prems(1) this] Subscribe show ?thesis by simp
  next
    case (Unsubscribe t m)
    from unsubscribe_inv [OF Cons.prems(1,2)] Unsubscribe show ?thesis by simp
  qed
  then obtain s1 where s1: "registry_step k sp x s = Inr s1" "registry_inv k sp B s1" by blast
  from Cons.IH [OF s1(2) Cons.prems(2)] Cons.prems(3) s1(1) show ?case by simp
qed

lemma unat_of_nat32: "n < 2 ^ 32 \<Longrightarrow> unat (of_nat n :: 32 word) = n"
  by (simp add: unat_of_nat)

lemma registry_inv_facts:
  assumes inv: "registry_inv k sp B s" and B: "B < 2 ^ 32" and i: "i < UvmEventNumTypesAll k"
  shows "finite (subscribers s i)"
    and "g_tools_enabled_event_count s i = of_nat (card (subscribers s i))"
    and "unat (g_tools_enabled_event_count s i) = card (subscribers s i)"
    and "\<forall>vs. distinct (va_space_queues s vs i)
              \<and> set (va_space_queues s vs i) = {t \<in> subscribers s i. sp t = vs}"
    and "(g_tools_enabled_event_count s i = 0) = (\<forall>vs. va_space_queues s vs i = [])"
    and "card {vs. va_space_queues s vs i \<noteq> []} \<le> card (subscribers s i)"
proof -
  from inv have b: "\<forall>t. tracker_subscribed_queues s t \<noteq> 0 \<longrightarrow> t < B"
    and d: "\<And>vs. distinct (va_space_queues s vs i)"
    and m: "\<And>vs. set (va_space_queues s vs i) =
            {t. sp t = vs \<and> bit (tracker_subscribed_queues s t) i}"
    and c: "g_tools_enabled_event_count s i = of_nat (card (subscribers s i))"
    using i by (simp_all add: registry_inv_def)
  show fin: "finite (subscribers s i)" by (rule subscribers_finite [OF b])
  show "g_tools_enabled_event_count s i = of_nat (card (subscribers s i))" by (rule c)
  have lt: "card (subscribers s i) < 2 ^ 32"
    using subscribers_finite(2) [OF b, of i] B by simp
  show u: "unat (g_tools_enabled_event_count s i) = card (subscribers s i)"
    unfolding c by (rule unat_of_nat32 [OF lt])
  show l: "\<forall>vs. distinct (va_space_queues s vs i)
              \<and> set (va_space_queues s vs i) = {t \<in> subscribers s i. sp t = vs}"
    using d m by (auto simp: subscribers_def)
  have ne: "{vs. va_space_queues s vs i \<noteq> []} = sp ` subscribers s i"
  proof -
    have "\<And>vs. (va_space_queues s vs i \<noteq> []) = (set (va_space_queues s vs i) \<noteq> {})" by simp
    then show ?thesis using l by auto
  qed
  have "(g_tools_enabled_event_count s i = 0) = (unat (g_tools_enabled_event_count s i) = 0)"
    by (simp add: unat_eq_0)
  also have "\<dots> = (subscribers s i = {})" using fin by (simp add: u)
  also have "\<dots> = ({vs. va_space_queues s vs i \<noteq> []} = {})" unfolding ne by simp
  also have "\<dots> = (\<forall>vs. va_space_queues s vs i = [])" by auto
  finally show "(g_tools_enabled_event_count s i = 0) = (\<forall>vs. va_space_queues s vs i = [])" .
  show "card {vs. va_space_queues s vs i \<noteq> []} \<le> card (subscribers s i)"
    unfolding ne by (rule card_image_le [OF fin])
qed

text \<open>
  Two queue trackers of the same collector subscribe to the event type 1: the count of
  the type is 2, while one collector has a non-empty list for it.
\<close>

theorem enabled_count_two_subscribers_counterexample:
  "\<exists>s. registry_run example_consts (\<lambda>_. 0) [Subscribe 0 2, Subscribe 1 2] registry_init = Inr s
     \<and> g_tools_enabled_event_count s 1 = 2
     \<and> va_space_queues s 0 1 = [1, 0]
     \<and> card {vs. va_space_queues s vs 1 \<noteq> []} = 1"
proof -
  let ?s = "subscribe example_consts (\<lambda>_. 0) 1 2 (subscribe example_consts (\<lambda>_. 0) 0 2 registry_init)"
  have r: "registry_run example_consts (\<lambda>_. 0) [Subscribe 0 2, Subscribe 1 2] registry_init = Inr ?s"
    by simp
  have c: "g_tools_enabled_event_count ?s 1 = 2"
    by (simp add: subscribe_eq registry_init_def example_consts_def)
  have q: "\<And>vs. va_space_queues ?s vs 1 = (if vs = 0 then [1, 0] else [])"
    by (simp add: subscribe_eq registry_init_def example_consts_def)
  have "{vs. va_space_queues ?s vs 1 \<noteq> []} = {0}"
    unfolding q by auto
  then have n: "card {vs. va_space_queues ?s vs 1 \<noteq> []} = 1" by simp
  have q0: "va_space_queues ?s 0 1 = [1, 0]" unfolding q by simp
  show ?thesis
    by (rule exI [of _ ?s]) (intro conjI r c q0 n)
qed

text \<open>
  C7. After any sequence of subscribe (insert) and unsubscribe (remove) operations of
  queue trackers, starting with no subscriber and fewer than \<open>2 ^ 32\<close> trackers: no
  assertion fails, and for every event type the global enabled count equals the number
  of trackers subscribed to that type over all collectors, each of them linked exactly
  once on the list of its own collector; this number is at least the number of collectors
  whose list for the type is non-empty; the count is zero exactly when no collector has a
  subscriber for the type.
\<close>

theorem enabled_count_is_subscriber_count:
  assumes "\<forall>x\<in>set ops. op_tracker x < B" and "B < 2 ^ 32"
  shows "\<exists>s. registry_run k space_of ops registry_init = Inr s
    \<and> (\<forall>i<UvmEventNumTypesAll k.
          finite (subscribers s i)
        \<and> g_tools_enabled_event_count s i = of_nat (card (subscribers s i))
        \<and> unat (g_tools_enabled_event_count s i) = card (subscribers s i)
        \<and> (\<forall>vs. distinct (va_space_queues s vs i)
              \<and> set (va_space_queues s vs i) = {t \<in> subscribers s i. space_of t = vs})
        \<and> ((g_tools_enabled_event_count s i = 0) = (\<forall>vs. va_space_queues s vs i = []))
        \<and> card {vs. va_space_queues s vs i \<noteq> []} \<le> card (subscribers s i))"
proof -
  from registry_run_inv [OF registry_init_inv assms(2,1)]
  obtain s where r: "registry_run k space_of ops registry_init = Inr s"
    and inv: "registry_inv k space_of B s" by blast
  have "\<forall>i<UvmEventNumTypesAll k.
          finite (subscribers s i)
        \<and> g_tools_enabled_event_count s i = of_nat (card (subscribers s i))
        \<and> unat (g_tools_enabled_event_count s i) = card (subscribers s i)
        \<and> (\<forall>vs. distinct (va_space_queues s vs i)
              \<and> set (va_space_queues s vs i) = {t \<in> subscribers s i. space_of t = vs})
        \<and> ((g_tools_enabled_event_count s i = 0) = (\<forall>vs. va_space_queues s vs i = []))
        \<and> card {vs. va_space_queues s vs i \<noteq> []} \<le> card (subscribers s i)"
    using registry_inv_facts [OF inv assms(2)] by (intro allI impI conjI) blast+
  with r show ?thesis by blast
qed

text \<open>
  Trackers 0 and 1 of collector 0 and tracker 2 of collector 1, four event types: after
  three subscriptions and one removal the counts are 0, 2, 1, 0.
\<close>

theorem enabled_count_is_subscriber_count_witness:
  "\<exists>s. registry_run (example_consts\<lparr>UvmEventNumTypesAll := 4\<rparr>) (\<lambda>t. t div 2)
          [Subscribe 0 2, Subscribe 1 6, Subscribe 2 2, Unsubscribe 0 3] registry_init = Inr s
     \<and> unat (g_tools_enabled_event_count s 1) = card (subscribers s 1)
     \<and> map (g_tools_enabled_event_count s) [0, 1, 2, 3] = [0, 2, 1, 0]
     \<and> va_space_queues s 0 1 = [1] \<and> va_space_queues s 1 1 = [2]
     \<and> ((g_tools_enabled_event_count s 3 = 0) = (\<forall>vs. va_space_queues s vs 3 = []))"
proof -
  let ?ops = "[Subscribe 0 2, Subscribe 1 6, Subscribe 2 2, Unsubscribe 0 3]"
  have a: "\<forall>x\<in>set ?ops. op_tracker x < 3" by simp
  have b: "(3::nat) < 2 ^ 32" by simp
  from enabled_count_is_subscriber_count [OF a b, of "example_consts\<lparr>UvmEventNumTypesAll := 4\<rparr>" "\<lambda>t. t div 2"]
  obtain s where rf: "registry_run (example_consts\<lparr>UvmEventNumTypesAll := 4\<rparr>) (\<lambda>t. t div 2) ?ops registry_init = Inr s
    \<and> (\<forall>i<UvmEventNumTypesAll (example_consts\<lparr>UvmEventNumTypesAll := 4\<rparr>).
          finite (subscribers s i)
        \<and> g_tools_enabled_event_count s i = of_nat (card (subscribers s i))
        \<and> unat (g_tools_enabled_event_count s i) = card (subscribers s i)
        \<and> (\<forall>vs. distinct (va_space_queues s vs i)
              \<and> set (va_space_queues s vs i) = {t \<in> subscribers s i. t div 2 = vs})
        \<and> ((g_tools_enabled_event_count s i = 0) = (\<forall>vs. va_space_queues s vs i = []))
        \<and> card {vs. va_space_queues s vs i \<noteq> []} \<le> card (subscribers s i))" ..
  note r = rf [THEN conjunct1] and f = rf [THEN conjunct2, rule_format]
  have n: "(1::nat) < UvmEventNumTypesAll (example_consts\<lparr>UvmEventNumTypesAll := 4\<rparr>)" "(3::nat) < UvmEventNumTypesAll (example_consts\<lparr>UvmEventNumTypesAll := 4\<rparr>)"
    by (simp_all add: example_consts_def)
  note f1 = f [OF n(1), THEN conjunct2, THEN conjunct2, THEN conjunct1]
    and f3 = f [OF n(2), THEN conjunct2, THEN conjunct2, THEN conjunct2, THEN conjunct2, THEN conjunct1]
  have "(case registry_run (example_consts\<lparr>UvmEventNumTypesAll := 4\<rparr>) (\<lambda>t. t div 2) ?ops registry_init of
           Inl e \<Rightarrow> None
         | Inr s \<Rightarrow> Some (map (g_tools_enabled_event_count s) [0, 1, 2, 3],
                         va_space_queues s 0 1, va_space_queues s 1 1))
        = Some ([0, 2, 1, 0], [1], [2])"
    by code_simp
  then have c: "map (g_tools_enabled_event_count s) [0, 1, 2, 3] = [0, 2, 1, 0]"
    and q: "va_space_queues s 0 1 = [1]" "va_space_queues s 1 1 = [2]"
    unfolding r by simp_all
  show ?thesis
    by (rule exI [of _ s]) (intro conjI r c q f1 f3)
qed

subsection \<open>Properties of the callback registration\<close>

lemma update_event_callback_fail:
  assumes "update_event_callback reg ev needed perf = (st, perf')" and "st \<noteq> NV_OK"
  shows "needed \<and> \<not> perf ev \<and> st = reg ev \<and> perf' = perf"
  using assms
  by (auto simp: update_event_callback_def uvm_perf_register_event_callback_locked_def
      split: if_splits)

lemma update_event_callback_ok:
  assumes "update_event_callback reg ev needed perf = (NV_OK, perf')"
  shows "perf' ev = needed \<and> (\<forall>e. e \<noteq> ev \<longrightarrow> perf' e = perf e)"
  using assms
  by (auto simp: update_event_callback_def uvm_perf_register_event_callback_locked_def
      uvm_perf_unregister_event_callback_locked_def split: if_splits)

lemma update_event_callback_consistent:
  assumes "needed \<longrightarrow> perf ev"
  shows "fst (update_event_callback reg ev needed perf) = NV_OK"
  using assms
  by (simp add: update_event_callback_def)

lemma update_callbacks_fail:
  assumes "tools_update_perf_events_callbacks k reg vs = (st, vs')" and "st \<noteq> NV_OK"
  shows "va_tools_enabled vs' = va_tools_enabled vs
    \<and> va_tools_queues vs' = va_tools_queues vs
    \<and> va_tools_counters vs' = va_tools_counters vs
    \<and> ((tools_is_fault_callback_needed k vs
          \<and> \<not> va_perf_registered vs UVM_PERF_EVENT_FAULT
          \<and> st = reg UVM_PERF_EVENT_FAULT \<and> vs' = vs)
       \<or> (tools_is_migration_callback_needed k vs
          \<and> \<not> va_perf_registered vs UVM_PERF_EVENT_MIGRATION
          \<and> st = reg UVM_PERF_EVENT_MIGRATION
          \<and> \<not> va_perf_registered vs' UVM_PERF_EVENT_MIGRATION
          \<and> va_perf_registered vs' UVM_PERF_EVENT_FAULT = tools_is_fault_callback_needed k vs))"
proof -
  obtain st1 perf1 where u1: "update_event_callback reg UVM_PERF_EVENT_FAULT
      (tools_is_fault_callback_needed k vs) (va_perf_registered vs) = (st1, perf1)"
    by (cases "update_event_callback reg UVM_PERF_EVENT_FAULT
      (tools_is_fault_callback_needed k vs) (va_perf_registered vs)")
  show ?thesis
  proof (cases "st1 = NV_OK")
    case False
    from update_event_callback_fail [OF u1 False]
    have f: "tools_is_fault_callback_needed k vs" "\<not> va_perf_registered vs UVM_PERF_EVENT_FAULT"
      "st1 = reg UVM_PERF_EVENT_FAULT" "perf1 = va_perf_registered vs" by simp_all
    from assms(1) False have "st = st1" "vs' = vs\<lparr>va_perf_registered := perf1\<rparr>"
      by (simp_all add: tools_update_perf_events_callbacks_def u1)
    with f show ?thesis by simp
  next
    case True
    obtain st2 perf2 where u2: "update_event_callback reg UVM_PERF_EVENT_MIGRATION
      (tools_is_migration_callback_needed k vs) perf1 = (st2, perf2)"
      by (cases "update_event_callback reg UVM_PERF_EVENT_MIGRATION
      (tools_is_migration_callback_needed k vs) perf1")
    from assms(1) True have r: "st = st2" "vs' = vs\<lparr>va_perf_registered := perf2\<rparr>"
      by (auto simp: tools_update_perf_events_callbacks_def u1 u2 split: if_splits)
    with assms(2) have "st2 \<noteq> NV_OK" by simp
    from update_event_callback_fail [OF u2 this]
    have m: "tools_is_migration_callback_needed k vs" "\<not> perf1 UVM_PERF_EVENT_MIGRATION"
      "st2 = reg UVM_PERF_EVENT_MIGRATION" "perf2 = perf1" by simp_all
    from update_event_callback_ok [OF u1 [unfolded True]]
    have p1: "perf1 UVM_PERF_EVENT_FAULT = tools_is_fault_callback_needed k vs"
      "perf1 UVM_PERF_EVENT_MIGRATION = va_perf_registered vs UVM_PERF_EVENT_MIGRATION"
      by simp_all
    from r m p1 show ?thesis by simp
  qed
qed

lemma update_status_fail:
  assumes "tools_update_perf_events_callbacks k reg vs = (st, vs')" and "st \<noteq> NV_OK"
  shows "tools_update_status k reg va_space (g, vs) = (st, g, vs')"
  using assms by (simp add: tools_update_status_def)

lemma update_callbacks_consistent:
  assumes "tools_is_fault_callback_needed k vs \<longrightarrow> va_perf_registered vs UVM_PERF_EVENT_FAULT"
    and "tools_is_migration_callback_needed k vs \<longrightarrow> va_perf_registered vs UVM_PERF_EVENT_MIGRATION"
  shows "fst (tools_update_perf_events_callbacks k reg vs) = NV_OK"
proof -
  obtain st1 perf1 where u1: "update_event_callback reg UVM_PERF_EVENT_FAULT
      (tools_is_fault_callback_needed k vs) (va_perf_registered vs) = (st1, perf1)"
    by (cases "update_event_callback reg UVM_PERF_EVENT_FAULT
      (tools_is_fault_callback_needed k vs) (va_perf_registered vs)")
  have s1: "st1 = NV_OK"
    using update_event_callback_consistent [where reg = reg and ev = UVM_PERF_EVENT_FAULT
        and needed = "tools_is_fault_callback_needed k vs" and perf = "va_perf_registered vs"]
      assms(1) u1 by simp
  from update_event_callback_ok [OF u1 [unfolded s1]]
  have "perf1 UVM_PERF_EVENT_MIGRATION = va_perf_registered vs UVM_PERF_EVENT_MIGRATION" by simp
  with assms(2) have "tools_is_migration_callback_needed k vs \<longrightarrow> perf1 UVM_PERF_EVENT_MIGRATION"
    by simp
  with update_event_callback_consistent [where reg = reg and ev = UVM_PERF_EVENT_MIGRATION
        and needed = "tools_is_migration_callback_needed k vs" and perf = perf1]
  show ?thesis
    by (auto simp: tools_update_perf_events_callbacks_def u1 s1 split: prod.splits)
qed

lemma update_status_consistent:
  assumes "tools_is_fault_callback_needed k vs \<longrightarrow> va_perf_registered vs UVM_PERF_EVENT_FAULT"
    and "tools_is_migration_callback_needed k vs \<longrightarrow> va_perf_registered vs UVM_PERF_EVENT_MIGRATION"
  shows "fst (tools_update_status k reg va_space (g, vs)) = NV_OK"
  using update_callbacks_consistent [OF assms, of reg]
  by (auto simp: tools_update_status_def Let_def split: prod.splits)

lemma removed_lists_nonempty:
  "(if c then remove1 node l else l) \<noteq> [] \<Longrightarrow> l \<noteq> []"
  by (cases l) (simp_all split: if_splits)

lemma needed_after_remove_queues:
  assumes "\<And>i. l' i \<noteq> [] \<Longrightarrow> va_tools_queues vs i \<noteq> []"
  shows "tools_is_fault_callback_needed k (vs\<lparr>va_tools_queues := l'\<rparr>)
           \<longrightarrow> tools_is_fault_callback_needed k vs"
    and "tools_is_migration_callback_needed k (vs\<lparr>va_tools_queues := l'\<rparr>)
           \<longrightarrow> tools_is_migration_callback_needed k vs"
  using assms
  by (auto simp: tools_is_fault_callback_needed_def tools_is_migration_callback_needed_def
      tools_is_event_enabled_def tools_is_counter_enabled_def)

lemma needed_after_remove_counters:
  assumes "\<And>i. l' i \<noteq> [] \<Longrightarrow> va_tools_counters vs i \<noteq> []"
  shows "tools_is_fault_callback_needed k (vs\<lparr>va_tools_counters := l'\<rparr>)
           \<longrightarrow> tools_is_fault_callback_needed k vs"
    and "tools_is_migration_callback_needed k (vs\<lparr>va_tools_counters := l'\<rparr>)
           \<longrightarrow> tools_is_migration_callback_needed k vs"
  using assms
  by (auto simp: tools_is_fault_callback_needed_def tools_is_migration_callback_needed_def
      tools_is_event_enabled_def tools_is_counter_enabled_def)

lemma destroy_event_tracker_ok:
  assumes f: "tools_is_fault_callback_needed k vs \<longrightarrow> va_perf_registered vs UVM_PERF_EVENT_FAULT"
    and m: "tools_is_migration_callback_needed k vs \<longrightarrow> va_perf_registered vs UVM_PERF_EVENT_MIGRATION"
    and c: "\<forall>i. bit subscribed i \<longrightarrow> counts i \<noteq> 0"
  shows "\<exists>r. destroy_event_tracker k reg node is_queue subscribed uvm_file (counts, g, vs) = Inr r"
proof (cases uvm_file)
  case None
  then show ?thesis by (simp add: destroy_event_tracker_def)
next
  case (Some va_space)
  have cn: "\<And>n. \<forall>i<n. bit subscribed i \<and> bit subscribed i \<longrightarrow> counts i \<noteq> 0"
    using c by simp
  show ?thesis
  proof (cases is_queue)
    case True
    let ?n = "UvmEventNumTypesAll k"
    let ?l = "\<lambda>i. if i < ?n \<and> bit subscribed i \<and> bit subscribed i
                  then remove1 node (va_tools_queues vs i) else va_tools_queues vs i"
    let ?vs = "vs\<lparr>va_tools_queues := ?l\<rparr>"
    have ne: "\<And>i. ?l i \<noteq> [] \<Longrightarrow> va_tools_queues vs i \<noteq> []"
      by (rule removed_lists_nonempty)
    have "fst (tools_update_status k reg va_space (g, ?vs)) = NV_OK"
      using needed_after_remove_queues [of ?l vs k, OF ne] f m
      by (intro update_status_consistent) simp_all
    then show ?thesis
      using Some True
      by (auto simp: destroy_event_tracker_def remove_event_tracker_eq [OF cn]
          split: prod.splits)
  next
    case False
    let ?n = "UVM_TOTAL_COUNTERS k"
    let ?l = "\<lambda>i. if i < ?n \<and> bit subscribed i \<and> bit subscribed i
                  then remove1 node (va_tools_counters vs i) else va_tools_counters vs i"
    let ?vs = "vs\<lparr>va_tools_counters := ?l\<rparr>"
    have ne: "\<And>i. ?l i \<noteq> [] \<Longrightarrow> va_tools_counters vs i \<noteq> []"
      by (rule removed_lists_nonempty)
    have "fst (tools_update_status k reg va_space (g, ?vs)) = NV_OK"
      using needed_after_remove_counters [of ?l vs k, OF ne] f m
      by (intro update_status_consistent) simp_all
    then show ?thesis
      using Some False
      by (auto simp: destroy_event_tracker_def remove_event_tracker_eq [OF cn]
          split: prod.splits)
  qed
qed

text \<open>
  C9. A failed registration does not leave the registration state unchanged. A collector
  that is not enabled, with no callback registered, is newly subscribed to CPU faults and
  migrations; the registration of the fault callback succeeds and that of the migration
  callback fails. \<open>tools_update_status\<close> returns the error status with the enabled flag
  still false and the collector still off the global list, but the fault callback, which
  was not registered before, is registered afterwards: the early return on the second
  failure does not undo the first registration. \<open>uvm_tools_record_fault\<close>, the callback
  now registered, asserts \<open>va_space->tools.enabled\<close> when it is invoked, which is false
  in this state.
\<close>

theorem registration_failure_keeps_fault_callback:
  "tools_update_status example_consts example_reg 7 ([], example_va_space)
     = (NV_ERR_NO_MEMORY, [],
        example_va_space\<lparr>va_perf_registered := (\<lambda>ev. ev = UVM_PERF_EVENT_FAULT)\<rparr>)
   \<and> \<not> va_perf_registered example_va_space UVM_PERF_EVENT_FAULT
   \<and> va_perf_registered
        (snd (snd (tools_update_status example_consts example_reg 7 ([], example_va_space))))
        UVM_PERF_EVENT_FAULT
   \<and> \<not> va_tools_enabled
        (snd (snd (tools_update_status example_consts example_reg 7 ([], example_va_space))))"
proof -
  let ?vs' = "example_va_space\<lparr>va_perf_registered := (\<lambda>ev. ev = UVM_PERF_EVENT_FAULT)\<rparr>"
  have u: "tools_update_perf_events_callbacks example_consts example_reg example_va_space
            = (NV_ERR_NO_MEMORY, ?vs')"
    by (auto simp: tools_update_perf_events_callbacks_def update_event_callback_def
      uvm_perf_register_event_callback_locked_def example_reg_def example_va_space_def
      example_consts_def tools_is_fault_callback_needed_def tools_is_migration_callback_needed_def
      tools_is_event_enabled_def tools_is_counter_enabled_def fun_eq_iff)
  have n: "NV_ERR_NO_MEMORY \<noteq> NV_OK" by simp
  have t: "tools_update_status example_consts example_reg 7 ([], example_va_space)
            = (NV_ERR_NO_MEMORY, [], ?vs')"
    by (rule update_status_fail [OF u n])
  have b: "\<not> va_perf_registered example_va_space UVM_PERF_EVENT_FAULT"
    by (simp add: example_va_space_def)
  have a: "va_perf_registered ?vs' UVM_PERF_EVENT_FAULT" by simp
  have e: "\<not> va_tools_enabled ?vs'" by (simp add: example_va_space_def)
  show ?thesis unfolding t using a b e by simp
qed

subsection \<open>Properties of the flush\<close>



lemma w_zero: "((w :: 'a::len word) = 0) = (unat w = 0)"
  by (simp add: unat_eq_0)





















lemma channel_list_le_pushes:
  assumes inv: "channel_inv {} s"
  shows "length (g_tools_channel_list s) \<le> length (channel_pushes s)"
proof -
  have d: "distinct (g_tools_channel_list s)" using inv by (simp add: channel_inv_def)
  have sub: "set (g_tools_channel_list s) \<subseteq> snd ` set (channel_pushes s)"
  proof
    fix c assume "c \<in> set (g_tools_channel_list s)"
    then have "pending_event_count s c \<noteq> 0" using inv by (simp add: channel_inv_def)
    moreover have "unat (pending_event_count s c) = length (pushes_on c s)"
      using inv by (simp add: channel_inv_def)
    ultimately have "pushes_on c s \<noteq> []" by (simp add: w_zero)
    then obtain p where "p \<in> set (pushes_on c s)" by (cases "pushes_on c s") auto
    then show "c \<in> snd ` set (channel_pushes s)" by (auto simp: pushes_on_def)
  qed
  have "length (g_tools_channel_list s) = card (set (g_tools_channel_list s))"
    using d by (simp add: distinct_card)
  also have "\<dots> \<le> card (snd ` set (channel_pushes s))"
    by (rule card_mono [OF _ sub]) simp
  also have "\<dots> \<le> card (set (channel_pushes s))" by (rule card_image_le) simp
  also have "\<dots> \<le> length (channel_pushes s)" by (rule card_length)
  finally show ?thesis .
qed








end
